theory Spec2Isabelle
  imports Main "HOL-Library.Word"
begin

unbundle bit_operations_syntax

section \<open>Lazyplug: the hotplug controller of drivers/soc/samsung/lazyplug.c\<close>

text \<open>
  The driver is a set of C functions over file-scope variables. The variables become
  one record, each function becomes a function from the state to the new state, and
  every call of the kernel's hotplug interface (\<open>cpu_up\<close>, \<open>cpu_down\<close>,
  \<open>cpu_down_nocheck\<close>) is appended to a log kept in the state, so that what the
  driver commands can be read off after a run.

  Integers: \<open>unsigned int\<close> values that take part in arithmetic that can wrap
  (thresholds, the hysteresis, the load sample) are \<open>32 word\<close>; \<open>unsigned long\<close>
  is \<open>64 word\<close> (the tree is built with \<open>ARCH=arm64\<close>). Counters and indices that
  are only compared, assigned or incremented under a guard (\<open>idle_count\<close>,
  \<open>nr_run_last\<close>, the profile selector, cpu numbers) are \<open>nat\<close>;
  \<open>persist_count\<close> is a C \<open>int\<close> that is only assigned 26 and decremented
  while positive, so it is an \<open>int\<close>.
\<close>

type_synonym u32 = "32 word"
type_synonym u64 = "64 word"

subsection \<open>Constants\<close>

definition DEF_SAMPLING_MS :: int where
  "DEF_SAMPLING_MS = 132"

definition DEF_IDLE_COUNT :: nat where
  "DEF_IDLE_COUNT = 19"

definition BUSY_PERSISTENCE :: int where
  "BUSY_PERSISTENCE = 3500 div DEF_SAMPLING_MS"

definition CAPACITY_RESERVE :: int where
  "CAPACITY_RESERVE = 50"

definition THREAD_CAPACITY :: int where
  "THREAD_CAPACITY = 520 - CAPACITY_RESERVE"

definition MULT_FACTOR :: int where
  "MULT_FACTOR = 4"

definition DIV_FACTOR :: int where
  "DIV_FACTOR = 100000"

definition NR_FSHIFT :: nat where
  "NR_FSHIFT = 3"

definition UINT_MAX :: u32 where
  "UINT_MAX = - 1"

definition NR_RUN_ECO_MODE_PROFILE :: nat where
  "NR_RUN_ECO_MODE_PROFILE = 3"

definition NR_RUN_HYSTERESIS_OCTA :: u32 where
  "NR_RUN_HYSTERESIS_OCTA = 16"

definition NR_RUN_HYSTERESIS_HEXA :: u32 where
  "NR_RUN_HYSTERESIS_HEXA = 12"

definition NR_RUN_HYSTERESIS_QUAD :: u32 where
  "NR_RUN_HYSTERESIS_QUAD = 8"

definition NR_RUN_HYSTERESIS_DUAL :: u32 where
  "NR_RUN_HYSTERESIS_DUAL = 4"

definition CPU_NR_THRESHOLD :: u32 where
  "CPU_NR_THRESHOLD = word_of_int (THREAD_CAPACITY * 2 + THREAD_CAPACITY div 2)"

subsection \<open>The threshold tables\<close>

text \<open>
  Each initialiser is the constant expression
  \<open>(THREAD_CAPACITY * n * MULT_FACTOR) / DIV_FACTOR\<close>, evaluated in \<open>int\<close> (no
  product exceeds 4418000) and stored in an \<open>unsigned int\<close>.
\<close>

definition thr :: "int \<Rightarrow> u32" where
  "thr n = word_of_int ((THREAD_CAPACITY * n * MULT_FACTOR) div DIV_FACTOR)"

definition nr_run_thresholds_balance :: "u32 list" where
  "nr_run_thresholds_balance = [thr 625, thr 875, thr 1125, UINT_MAX]"

definition nr_run_thresholds_performance :: "u32 list" where
  "nr_run_thresholds_performance = [thr 380, thr 625, thr 875, UINT_MAX]"

definition nr_run_thresholds_conservative :: "u32 list" where
  "nr_run_thresholds_conservative = [thr 875, thr 1625, thr 2125, UINT_MAX]"

definition nr_run_thresholds_eco :: "u32 list" where
  "nr_run_thresholds_eco = [thr 380, UINT_MAX]"

definition nr_run_thresholds_eco_extreme :: "u32 list" where
  "nr_run_thresholds_eco_extreme = [thr 750, UINT_MAX]"

definition nr_run_thresholds_disable :: "u32 list" where
  "nr_run_thresholds_disable = [0, 0, 0, UINT_MAX]"

definition nr_run_thresholds_lazy :: "u32 list" where
  "nr_run_thresholds_lazy = [thr 995, thr 1875, thr 2350, UINT_MAX]"

definition nr_run_profiles :: "u32 list list" where
  "nr_run_profiles =
     [nr_run_thresholds_balance,
      nr_run_thresholds_performance,
      nr_run_thresholds_conservative,
      nr_run_thresholds_eco,
      nr_run_thresholds_eco_extreme,
      nr_run_thresholds_disable,
      nr_run_thresholds_lazy]"

subsection \<open>The kernel around the driver\<close>

text \<open>
  What the driver uses and this file does not define is a parameter: the configuration
  constant \<open>NR_CPUS\<close>, the kernel variable \<open>nr_cpu_ids\<close> (at least 1: the boot
  cpu), the macro \<open>FSHIFT\<close> of \<open>linux/sched.h\<close> (11 in the kernel), and the effect of
  a hotplug request on the mask of online cpus, which is the kernel's decision: a
  request may be refused.
\<close>

datatype hotplug_call = Cpu_up nat | Cpu_down nat | Cpu_down_nocheck nat

record kernel =
  NR_CPUS :: nat
  nr_cpu_ids :: nat
  FSHIFT :: nat
  hotplug :: "hotplug_call \<Rightarrow> nat set \<Rightarrow> nat set"

subsection \<open>The driver's variables\<close>

text \<open>
  \<open>online\<close> is the kernel's \<open>cpu_online_mask\<close>, read by \<open>cpu_online\<close>,
  \<open>num_online_cpus\<close> and \<open>for_each_online_cpu\<close>. \<open>calls\<close> is the log of hotplug
  requests, oldest first. \<open>cpu_nr_running\<close> is the field of that name of the per-cpu
  \<open>ip_info\<close>. The three \<open>_queued\<close> flags say that the work item is pending on its
  workqueue: \<open>queue_delayed_work\<close> and \<open>schedule_work\<close> set the flag (on a pending
  item they do nothing), and the item's function runs later, on its own.
\<close>

record lp_state =
  lazyplug_active :: nat
  nr_run_profile_sel :: nat
  Lnr_run_profile_sel :: nat
  persist_count :: int
  suspended :: bool
  cac_bool :: bool
  lazymode :: bool
  nr_fshift :: nat
  nr_possible_cores :: nat
  cpu_nr_run_threshold :: u32
  nr_run_hysteresis :: u32
  nr_run_last :: nat
  idle_count :: nat
  cpu_nr_running :: "nat \<Rightarrow> u64"
  online :: "nat set"
  calls :: "hotplug_call list"
  lazyplug_work_queued :: bool
  lazyplug_cac_queued :: bool
  cpu_all_up_work_queued :: bool

definition cpu_up :: "kernel \<Rightarrow> nat \<Rightarrow> lp_state \<Rightarrow> lp_state" where
  "cpu_up k cpu s =
     s\<lparr>calls := calls s @ [Cpu_up cpu], online := hotplug k (Cpu_up cpu) (online s)\<rparr>"

definition cpu_down :: "kernel \<Rightarrow> nat \<Rightarrow> lp_state \<Rightarrow> lp_state" where
  "cpu_down k cpu s =
     s\<lparr>calls := calls s @ [Cpu_down cpu], online := hotplug k (Cpu_down cpu) (online s)\<rparr>"

definition cpu_down_nocheck :: "kernel \<Rightarrow> nat \<Rightarrow> lp_state \<Rightarrow> lp_state" where
  "cpu_down_nocheck k cpu s =
     s\<lparr>calls := calls s @ [Cpu_down_nocheck cpu],
       online := hotplug k (Cpu_down_nocheck cpu) (online s)\<rparr>"

subsection \<open>\<open>cpu_all_ctrl\<close>\<close>

text \<open>
  The three \<open>for\<close> statements run \<open>cpu\<close> over \<open>1..3\<close>, over \<open>1..nr_cpu_ids - 1\<close> and down from
  \<open>nr_cpu_ids - 1\<close> to 2. With \<open>nr_cpu_ids \<ge> 1\<close> the subtraction does not wrap.
\<close>

definition cpu_all_ctrl :: "kernel \<Rightarrow> bool \<Rightarrow> lp_state \<Rightarrow> lp_state" where
  "cpu_all_ctrl k onl s =
     (if onl then
        (if lazymode s then fold (cpu_up k) [1, 2, 3] s
         else fold (cpu_up k) [1 ..< nr_cpu_ids k] s)
      else fold (cpu_down k) (rev [2 ..< nr_cpu_ids k]) s)"

subsection \<open>\<open>calculate_thread_stats\<close>\<close>

text \<open>
  \<open>nr_threshold\<close> is the local of that name when the comparison of the loop body is
  reached: the table entry, plus the hysteresis when \<open>nr_run_last <= nr_run\<close>. The
  addition is on \<open>unsigned int\<close> and wraps.
\<close>

definition nr_threshold :: "u32 list \<Rightarrow> u32 \<Rightarrow> nat \<Rightarrow> nat \<Rightarrow> u32" where
  "nr_threshold current_profile hyst nr_last nr_run =
     (let t = current_profile ! (nr_run - 1)
      in if nr_last \<le> nr_run then t + hyst else t)"

text \<open>
  The loop \<open>for (nr_run = 1; nr_run < threshold_size; nr_run++)\<close>, entered at
  \<open>nr_run\<close>; \<open>sh\<close> is \<open>FSHIFT - nr_fshift\<close>. The result is the value of
  \<open>nr_run\<close> after the loop.
\<close>

function thread_stats_loop ::
  "u32 list \<Rightarrow> nat \<Rightarrow> u32 \<Rightarrow> nat \<Rightarrow> nat \<Rightarrow> u32 \<Rightarrow> nat \<Rightarrow> nat" where
  "thread_stats_loop current_profile tsize hyst nr_last sh avg_nr_run nr_run =
     (if nr_run < tsize then
        (if avg_nr_run \<le> push_bit sh (nr_threshold current_profile hyst nr_last nr_run)
         then nr_run
         else thread_stats_loop current_profile tsize hyst nr_last sh avg_nr_run
                (nr_run + 1))
      else nr_run)"
  by pat_completeness auto
termination
  by (relation "measure (\<lambda>(p, sz, h, l, sh, a, n). sz - n)") auto

declare thread_stats_loop.simps [simp del]

text \<open>
  The shift count \<open>FSHIFT - nr_fshift\<close> is computed on \<open>nat\<close> and the shift on
  \<open>32 word\<close>: this is the C expression as long as the count is between 0 and 31, as it
  is with the kernel's \<open>FSHIFT = 11\<close> (counts 10 and 8).

  \<open>Lavg\<close> is what \<open>Lavg_nr_running()\<close> returns at this call, an \<open>unsigned long\<close>
  cut to \<open>unsigned int\<close> by the initialisation of \<open>avg_nr_run\<close>. A selector of 7
  or more (the module parameter accepts any value) reads past \<open>nr_run_profiles\<close>: that
  is \<open>None\<close>. The sizes are \<open>ARRAY_SIZE(nr_run_thresholds_eco)\<close> and
  \<open>ARRAY_SIZE(nr_run_thresholds_balance)\<close>; \<open>nr_fshift_sel\<close> is the value the
  function stores in \<open>nr_fshift\<close> before the loop.
\<close>

definition nr_fshift_sel :: "nat \<Rightarrow> nat" where
  "nr_fshift_sel sel = (if sel \<ge> NR_RUN_ECO_MODE_PROFILE then 1 else 3)"

definition threshold_size :: "nat \<Rightarrow> nat" where
  "threshold_size sel =
     (if sel \<ge> NR_RUN_ECO_MODE_PROFILE then length nr_run_thresholds_eco
      else length nr_run_thresholds_balance)"

definition calculate_thread_stats ::
  "kernel \<Rightarrow> u64 \<Rightarrow> lp_state \<Rightarrow> (nat \<times> lp_state) option" where
  "calculate_thread_stats k Lavg s =
     (let avg_nr_run = (ucast Lavg :: u32);
          sel = nr_run_profile_sel s
      in if sel < length nr_run_profiles then
           (let current_profile = nr_run_profiles ! sel;
                fsh = nr_fshift_sel sel;
                nr_run = thread_stats_loop current_profile (threshold_size sel)
                           (nr_run_hysteresis s) (nr_run_last s) (FSHIFT k - fsh)
                           avg_nr_run 1
            in Some (nr_run, s\<lparr>nr_fshift := fsh, nr_run_last := nr_run\<rparr>))
         else None)"

subsection \<open>\<open>update_per_cpu_stat\<close>, \<open>unplug_cpu\<close>, \<open>set_cpus\<close>\<close>

text \<open>\<open>Lcpu\<close> is \<open>Lavg_cpu_nr_running\<close> at this call.\<close>

definition update_per_cpu_stat :: "(nat \<Rightarrow> u64) \<Rightarrow> lp_state \<Rightarrow> lp_state" where
  "update_per_cpu_stat Lcpu s =
     s\<lparr>cpu_nr_running := (\<lambda>cpu. if cpu \<in> online s then Lcpu cpu else cpu_nr_running s cpu)\<rparr>"

text \<open>
  In \<open>cpu_nr_run_threshold << 1 / (num_online_cpus())\<close> the division binds tighter
  than the shift: the shift count is \<open>1 / num_online_cpus()\<close>. The result is stored
  in the \<open>int\<close> \<open>l_nr_threshold\<close> and compared with the \<open>unsigned long\<close>
  \<open>cpu_nr_running\<close>, so it is sign-extended to 64 bits; \<open>min_active_cpu\<close> is an
  \<open>int\<close> compared with the \<open>unsigned int\<close> \<open>cpu\<close>, so it is taken modulo
  \<open>2^32\<close>. The body runs for an online cpu only, so the divisor is not 0.
\<close>

definition l_nr_threshold :: "lp_state \<Rightarrow> u32" where
  "l_nr_threshold s = push_bit (1 div card (online s)) (cpu_nr_run_threshold s)"

definition unplug_cpu_body :: "kernel \<Rightarrow> int \<Rightarrow> nat \<Rightarrow> lp_state \<Rightarrow> lp_state" where
  "unplug_cpu_body k min_active_cpu cpu s =
     (if cpu \<notin> online s then s
      else if cpu > unat (word_of_int min_active_cpu :: u32)
              \<and> cpu_nr_running s cpu < (scast (l_nr_threshold s) :: u64)
           then cpu_down k cpu s
           else s)"

definition unplug_cpu :: "kernel \<Rightarrow> int \<Rightarrow> lp_state \<Rightarrow> lp_state" where
  "unplug_cpu k min_active_cpu s =
     fold (unplug_cpu_body k min_active_cpu) (rev [1 ..< nr_cpu_ids k]) s"

definition set_cpus_body :: "kernel \<Rightarrow> nat \<Rightarrow> lp_state \<Rightarrow> lp_state" where
  "set_cpus_body k cpu s =
     (if cpu \<notin> online s then s
      else if cpu \<ge> nr_possible_cores s then cpu_down k cpu s
      else s)"

definition set_cpus :: "kernel \<Rightarrow> lp_state \<Rightarrow> lp_state" where
  "set_cpus k s = fold (set_cpus_body k) (rev [1 ..< nr_cpu_ids k]) s"

subsection \<open>\<open>lazyplug_work_fn\<close>, the periodic tick\<close>

text \<open>
  The statement \<open>if (!suspended) { ... }\<close> of the tick, with the branch taken:
  \<open>cpu_count\<close> is the tier just computed.
\<close>

definition work_fn_not_suspended :: "kernel \<Rightarrow> nat \<Rightarrow> lp_state \<Rightarrow> lp_state" where
  "work_fn_not_suspended k cpu_count s =
     (let s1 = (if persist_count s > 0 then s\<lparr>persist_count := persist_count s - 1\<rparr> else s)
      in if cpu_count = 1 then
           (let s2 = (if idle_count s1 < DEF_IDLE_COUNT
                      then s1\<lparr>idle_count := idle_count s1 + 1\<rparr> else s1)
            in if idle_count s2 = DEF_IDLE_COUNT \<and> persist_count s2 = 0
               then fold (cpu_down k) [7, 6, 5, 4, 3, 2] s2
               else s2)
         else cpu_all_ctrl k True (s1\<lparr>idle_count := 0\<rparr>))"

text \<open>
  \<open>old_nr\<close> is a local initialised to \<open>NR_CPUS\<close> at every call, so the test
  \<open>old_nr > nr_possible_cores\<close> compares \<open>NR_CPUS\<close>. The tick ends by queueing
  itself again, whatever happened before.
\<close>

definition lazyplug_work_fn ::
  "kernel \<Rightarrow> u64 \<Rightarrow> (nat \<Rightarrow> u64) \<Rightarrow> lp_state \<Rightarrow> lp_state option" where
  "lazyplug_work_fn k Lavg Lcpu s =
     (if lazyplug_active s \<noteq> 0 then
        (case calculate_thread_stats k Lavg s of
           None \<Rightarrow> None
         | Some (nr_run_stat, s1) \<Rightarrow>
             (let s2 = update_per_cpu_stat Lcpu s1;
                  cpu_count = nr_run_stat;
                  s3 = (if NR_CPUS k > nr_possible_cores s2 then set_cpus k s2 else s2);
                  s4 = (if \<not> suspended s3 then work_fn_not_suspended k cpu_count s3 else s3)
              in Some (s4\<lparr>lazyplug_work_queued := True\<rparr>)))
      else Some (s\<lparr>lazyplug_work_queued := True\<rparr>))"

subsection \<open>The work items and the power-state events\<close>

definition lazyplug_cac_fn :: "kernel \<Rightarrow> lp_state \<Rightarrow> lp_state" where
  "lazyplug_cac_fn k s = cpu_all_ctrl k (cac_bool s) s"

definition cpu_all_up :: "kernel \<Rightarrow> lp_state \<Rightarrow> lp_state" where
  "cpu_all_up k s = cpu_all_ctrl k True s"

text \<open>
  \<open>flush_workqueue\<close> waits for the items already running; in this sequential model
  they have run before the event.
\<close>

definition lazyplug_suspend :: "lp_state \<Rightarrow> lp_state" where
  "lazyplug_suspend s =
     (if lazyplug_active s \<noteq> 0 then
        s\<lparr>suspended := True, cac_bool := False, lazyplug_cac_queued := True\<rparr>
      else s)"

definition lazyplug_resume :: "lp_state \<Rightarrow> lp_state" where
  "lazyplug_resume s =
     (let s1 = (if lazyplug_active s \<noteq> 0 then
                  s\<lparr>persist_count := BUSY_PERSISTENCE, suspended := False,
                    cpu_all_up_work_queued := True, cac_bool := True,
                    lazyplug_cac_queued := True\<rparr>
                else s)
      in s1\<lparr>lazyplug_work_queued := True\<rparr>)"

definition lazyplug_enter_lazy :: "kernel \<Rightarrow> bool \<Rightarrow> lp_state \<Rightarrow> lp_state" where
  "lazyplug_enter_lazy k enter s =
     (if enter \<and> \<not> lazymode s then
        fold (cpu_down_nocheck k) [7, 6, 5, 4, 3, 2]
          (s\<lparr>Lnr_run_profile_sel := nr_run_profile_sel s, nr_run_profile_sel := 6,
            lazymode := True\<rparr>)
      else if \<not> enter \<and> lazymode s then
        s\<lparr>nr_run_profile_sel := Lnr_run_profile_sel s, lazymode := False,
          cac_bool := True, lazyplug_cac_queued := True\<rparr>
      else s)"

text \<open>\<open>fb_state_change\<close> on \<open>FB_EVENT_BLANK\<close>, by the blank mode.\<close>

datatype blank = FB_BLANK_POWERDOWN | FB_BLANK_UNBLANK | FB_BLANK_OTHER

definition fb_state_change :: "blank \<Rightarrow> lp_state \<Rightarrow> lp_state" where
  "fb_state_change b s =
     (case b of
        FB_BLANK_POWERDOWN \<Rightarrow> lazyplug_suspend s
      | FB_BLANK_UNBLANK \<Rightarrow> lazyplug_resume (s\<lparr>idle_count := 0\<rparr>)
      | FB_BLANK_OTHER \<Rightarrow> s)"

text \<open>
  The workqueue runs a pending item: the pending flag is cleared, then the item's
  function is called.
\<close>

definition run_lazyplug_cac :: "kernel \<Rightarrow> lp_state \<Rightarrow> lp_state" where
  "run_lazyplug_cac k s =
     (if lazyplug_cac_queued s then lazyplug_cac_fn k (s\<lparr>lazyplug_cac_queued := False\<rparr>)
      else s)"

definition run_cpu_all_up_work :: "kernel \<Rightarrow> lp_state \<Rightarrow> lp_state" where
  "run_cpu_all_up_work k s =
     (if cpu_all_up_work_queued s then cpu_all_up k (s\<lparr>cpu_all_up_work_queued := False\<rparr>)
      else s)"

subsection \<open>The state at boot and \<open>lazyplug_init\<close>\<close>

text \<open>
  The initialisers of the file-scope variables; statics without one are 0. Every cpu
  the kernel knows is taken to be online when the driver starts.
\<close>

definition initial_state :: "kernel \<Rightarrow> lp_state" where
  "initial_state k =
     \<lparr>lazyplug_active = 1, nr_run_profile_sel = 0, Lnr_run_profile_sel = 0,
      persist_count = 0, suspended = False, cac_bool = True, lazymode = False,
      nr_fshift = NR_FSHIFT, nr_possible_cores = NR_CPUS k,
      cpu_nr_run_threshold = CPU_NR_THRESHOLD,
      nr_run_hysteresis = NR_RUN_HYSTERESIS_OCTA, nr_run_last = 0, idle_count = 0,
      cpu_nr_running = (\<lambda>cpu. 0), online = {0 ..< nr_cpu_ids k}, calls = [],
      lazyplug_work_queued = False, lazyplug_cac_queued = False,
      cpu_all_up_work_queued = False\<rparr>"

definition lazyplug_init :: "lp_state \<Rightarrow> lp_state" where
  "lazyplug_init s =
     (let s1 =
        (if nr_possible_cores s > 6 then
           s\<lparr>nr_run_hysteresis := NR_RUN_HYSTERESIS_OCTA, nr_run_profile_sel := 0\<rparr>
         else if nr_possible_cores s > 4 then
           s\<lparr>nr_run_hysteresis := NR_RUN_HYSTERESIS_HEXA, nr_run_profile_sel := 0\<rparr>
         else if nr_possible_cores s > 2 then
           s\<lparr>nr_run_hysteresis := NR_RUN_HYSTERESIS_QUAD, nr_run_profile_sel := 0\<rparr>
         else
           s\<lparr>nr_run_hysteresis := NR_RUN_HYSTERESIS_DUAL,
             nr_run_profile_sel := NR_RUN_ECO_MODE_PROFILE\<rparr>)
      in s1\<lparr>lazyplug_work_queued := True\<rparr>)"

subsection \<open>Runs\<close>

text \<open>
  What can happen to the driver, one step at a time: a tick with the two load readings
  of that tick, a framebuffer blank event, a call of \<open>lazyplug_enter_lazy\<close>, or the
  workqueue running one of the two other work items.
\<close>

datatype event =
    Tick u64 "nat \<Rightarrow> u64"
  | Fb_blank blank
  | Enter_lazy bool
  | Run_cac
  | Run_cpu_all_up

fun step :: "kernel \<Rightarrow> event \<Rightarrow> lp_state \<Rightarrow> lp_state option" where
  "step k (Tick Lavg Lcpu) s = lazyplug_work_fn k Lavg Lcpu s"
| "step k (Fb_blank b) s = Some (fb_state_change b s)"
| "step k (Enter_lazy enter) s = Some (lazyplug_enter_lazy k enter s)"
| "step k Run_cac s = Some (run_lazyplug_cac k s)"
| "step k Run_cpu_all_up s = Some (run_cpu_all_up_work k s)"

text \<open>
  A run is a list of events; \<open>run\<close> returns the state after each of them, in order,
  and \<open>None\<close> when a tick reads outside the profile table.
\<close>

fun run :: "kernel \<Rightarrow> event list \<Rightarrow> lp_state \<Rightarrow> lp_state list option" where
  "run k [] s = Some []"
| "run k (e # es) s =
     (case step k e s of
        None \<Rightarrow> None
      | Some s' \<Rightarrow> (case run k es s' of None \<Rightarrow> None | Some ss \<Rightarrow> Some (s' # ss)))"

text \<open>The hotplug requests made between two states of a run.\<close>

definition new_calls :: "lp_state \<Rightarrow> lp_state \<Rightarrow> hotplug_call list" where
  "new_calls s s' = drop (length (calls s)) (calls s')"

fun is_cpu_up :: "hotplug_call \<Rightarrow> bool" where
  "is_cpu_up (Cpu_up cpu) = True"
| "is_cpu_up (Cpu_down cpu) = False"
| "is_cpu_up (Cpu_down_nocheck cpu) = False"

subsection \<open>A kernel to run examples on\<close>

text \<open>
  Eight cpus, \<open>FSHIFT = 11\<close>, and a hotplug core that carries out every request for
  a cpu it has and refuses the others.
\<close>

fun hotplug_accept :: "nat \<Rightarrow> hotplug_call \<Rightarrow> nat set \<Rightarrow> nat set" where
  "hotplug_accept n (Cpu_up cpu) on = (if cpu < n then insert cpu on else on)"
| "hotplug_accept n (Cpu_down cpu) on = (if cpu < n then on - {cpu} else on)"
| "hotplug_accept n (Cpu_down_nocheck cpu) on = (if cpu < n then on - {cpu} else on)"

definition octa_kernel :: kernel where
  "octa_kernel = \<lparr>NR_CPUS = 8, nr_cpu_ids = 8, FSHIFT = 11, hotplug = hotplug_accept 8\<rparr>"

definition octa_boot :: lp_state where
  "octa_boot = lazyplug_init (initial_state octa_kernel)"

subsection \<open>The tier rule as the specification words it\<close>

text \<open>
  Not from the source: the specification's \<open>hysteresisAdjustment(t)\<close>, which "adds a
  fixed hysteresis constant when the previous tier was \<open>\<ge>\<close> the tier being tested".
  It is here to be compared with \<open>nr_threshold\<close>.
\<close>

definition hysteresisAdjustment_spec :: "u32 \<Rightarrow> nat \<Rightarrow> nat \<Rightarrow> u32" where
  "hysteresisAdjustment_spec hyst previousTier t = (if previousTier \<ge> t then hyst else 0)"

section \<open>Values of the constants and unfolding rules\<close>

lemma thr_values:
  "thr 625 = 11" "thr 875 = 16" "thr 1125 = 21" "thr 380 = 7" "thr 1625 = 30"
  "thr 2125 = 39" "thr 750 = 14" "thr 995 = 18" "thr 1875 = 35" "thr 2350 = 44"
  by (simp_all add: thr_def THREAD_CAPACITY_def CAPACITY_RESERVE_def MULT_FACTOR_def
      DIV_FACTOR_def)

lemma BUSY_PERSISTENCE_value: "BUSY_PERSISTENCE = 26"
  by (simp add: BUSY_PERSISTENCE_def DEF_SAMPLING_MS_def)

lemma CPU_NR_THRESHOLD_value: "CPU_NR_THRESHOLD = 1175"
  by (simp add: CPU_NR_THRESHOLD_def THREAD_CAPACITY_def CAPACITY_RESERVE_def)

lemmas profile_defs =
  nr_run_profiles_def nr_run_thresholds_balance_def nr_run_thresholds_performance_def
  nr_run_thresholds_conservative_def nr_run_thresholds_eco_def
  nr_run_thresholds_eco_extreme_def nr_run_thresholds_disable_def
  nr_run_thresholds_lazy_def

lemmas boot_defs =
  octa_boot_def octa_kernel_def lazyplug_init_def initial_state_def
  NR_RUN_HYSTERESIS_OCTA_def NR_FSHIFT_def CPU_NR_THRESHOLD_value

lemmas eval_defs =
  calculate_thread_stats_def threshold_size_def nr_fshift_sel_def nr_threshold_def Let_def
  NR_RUN_ECO_MODE_PROFILE_def profile_defs thr_values thread_stats_loop.simps

lemmas tick_defs =
  lazyplug_work_fn_def update_per_cpu_stat_def work_fn_not_suspended_def DEF_IDLE_COUNT_def
  cpu_down_def cpu_up_def cpu_down_nocheck_def set_cpus_def set_cpus_body_def cpu_all_ctrl_def

lemmas event_defs =
  fb_state_change_def lazyplug_suspend_def lazyplug_resume_def lazyplug_enter_lazy_def
  run_lazyplug_cac_def run_cpu_all_up_work_def lazyplug_cac_fn_def cpu_all_up_def

lemma upt_1_8:
  "[Suc 0 ..< 8] = [1, 2, 3, 4, 5, 6, 7]" "[2 ..< 8] = [2, 3, 4, 5, 6, 7 :: nat]"
  by (simp_all add: upt_rec)

lemma threshold_size_ge: "2 \<le> threshold_size sel"
  by (simp add: threshold_size_def profile_defs)

lemma sel_cases:
  "sel < length nr_run_profiles \<Longrightarrow>
   sel = 0 \<or> sel = 1 \<or> sel = 2 \<or> sel = 3 \<or> sel = 4 \<or> sel = 5 \<or> sel = (6::nat)"
  by (simp add: profile_defs) arith

section \<open>The evaluator\<close>

subsection \<open>What the loop returns\<close>

text \<open>
  Entered at \<open>n\<close>, the loop returns the first \<open>nr_run\<close> from \<open>n\<close> on whose scaled
  threshold is not below the sample, and \<open>tsize\<close> when there is none.
\<close>

lemma thread_stats_loop_spec:
  "n \<le> tsize \<Longrightarrow>
   (let r = thread_stats_loop prof tsize hyst nl sh avg n in
     n \<le> r \<and> r \<le> tsize \<and>
     (r < tsize \<longrightarrow> avg \<le> push_bit sh (nr_threshold prof hyst nl r)) \<and>
     (\<forall>j. n \<le> j \<and> j < r \<longrightarrow> push_bit sh (nr_threshold prof hyst nl j) < avg))"
proof (induction prof tsize hyst nl sh avg n rule: thread_stats_loop.induct)
  case (1 prof tsize hyst nl sh avg n)
  show ?case
  proof (cases "n < tsize")
    case False
    then have "thread_stats_loop prof tsize hyst nl sh avg n = n"
      by (subst thread_stats_loop.simps) simp
    with 1(2) False show ?thesis by auto
  next
    case True
    show ?thesis
    proof (cases "avg \<le> push_bit sh (nr_threshold prof hyst nl n)")
      case le: True
      with True have "thread_stats_loop prof tsize hyst nl sh avg n = n"
        by (subst thread_stats_loop.simps) simp
      with True le show ?thesis by auto
    next
      case gt: False
      from True have "n + 1 \<le> tsize" by simp
      from True gt have eq: "thread_stats_loop prof tsize hyst nl sh avg n =
          thread_stats_loop prof tsize hyst nl sh avg (n + 1)"
        by (subst thread_stats_loop.simps) simp
      from 1(1)[OF True gt \<open>n + 1 \<le> tsize\<close>] gt show ?thesis
        unfolding eq Let_def
        by (metis Suc_eq_plus1 Suc_leI le_neq_implies_less not_le Suc_leD)
    qed
  qed
qed

text \<open>
  C2, as the code has it. When \<open>calculate_thread_stats\<close> returns tier \<open>r\<close>, then
  \<open>r\<close> is between 1 and the scanned size, the sample is above the scaled threshold of
  every tier tested before \<open>r\<close> and, unless \<open>r\<close> is the last tier, not above that of
  \<open>r\<close>; and the threshold of a tested tier \<open>j\<close> is the table entry plus the hysteresis
  exactly when the previous tier is less than or equal to \<open>j\<close> (the claim has it the other
  way round). So with the previous tier equal to the tier tested the hysteresis is added.
\<close>

theorem hysteresis_added_when_last_le:
  assumes "calculate_thread_stats k Lavg s = Some (r, s')"
  shows "1 \<le> r \<and> r \<le> threshold_size (nr_run_profile_sel s) \<and>
    (r < threshold_size (nr_run_profile_sel s) \<longrightarrow>
       ucast Lavg \<le> push_bit (FSHIFT k - nr_fshift s')
         (nr_run_profiles ! nr_run_profile_sel s ! (r - 1)
            + (if nr_run_last s \<le> r then nr_run_hysteresis s else 0))) \<and>
    (\<forall>j. 1 \<le> j \<and> j < r \<longrightarrow>
       push_bit (FSHIFT k - nr_fshift s')
         (nr_run_profiles ! nr_run_profile_sel s ! (j - 1)
            + (if nr_run_last s \<le> j then nr_run_hysteresis s else 0)) < ucast Lavg)"
proof -
  let ?sel = "nr_run_profile_sel s"
  let ?P = "nr_run_profiles ! ?sel"
  from assms have r: "r = thread_stats_loop ?P (threshold_size ?sel) (nr_run_hysteresis s)
       (nr_run_last s) (FSHIFT k - nr_fshift_sel ?sel) (ucast Lavg) 1"
    and s': "nr_fshift s' = nr_fshift_sel ?sel"
    by (auto simp: calculate_thread_stats_def Let_def split: if_splits)
  have "1 \<le> threshold_size ?sel" using threshold_size_ge [of ?sel] by simp
  note spec = thread_stats_loop_spec [OF this, of ?P "nr_run_hysteresis s"
      "nr_run_last s" "FSHIFT k - nr_fshift_sel ?sel" "ucast Lavg", folded r, unfolded Let_def]
  have thr: "nr_threshold ?P (nr_run_hysteresis s) (nr_run_last s) j =
      ?P ! (j - 1) + (if nr_run_last s \<le> j then nr_run_hysteresis s else 0)" for j
    by (simp add: nr_threshold_def)
  from spec show ?thesis
    unfolding thr s' by blast
qed

theorem hysteresis_added_when_last_le_witness:
  "map_option fst (calculate_thread_stats octa_kernel 5000 (octa_boot\<lparr>nr_run_last := 2\<rparr>))
     = Some 2
   \<and> push_bit 8 (thr 625) < (5000 :: u32)
   \<and> (5000 :: u32) \<le> push_bit 8 (thr 875 + 16)"
proof -
  let ?s = "octa_boot\<lparr>nr_run_last := 2\<rparr>"
  obtain s' where h: "calculate_thread_stats octa_kernel 5000 ?s = Some (2, s')"
    by (simp add: eval_defs boot_defs)
  have f: "nr_fshift s' = 3"
    using h by (auto simp: calculate_thread_stats_def nr_fshift_sel_def
        NR_RUN_ECO_MODE_PROFILE_def boot_defs Let_def split: if_splits)
  from hysteresis_added_when_last_le [OF h] have
    a: "ucast (5000 :: u64) \<le> push_bit (FSHIFT octa_kernel - nr_fshift s')
         (nr_run_profiles ! nr_run_profile_sel ?s ! (2 - 1)
            + (if nr_run_last ?s \<le> 2 then nr_run_hysteresis ?s else 0))"
   and b: "\<forall>j. 1 \<le> j \<and> j < 2 \<longrightarrow>
       push_bit (FSHIFT octa_kernel - nr_fshift s')
         (nr_run_profiles ! nr_run_profile_sel ?s ! (j - 1)
            + (if nr_run_last ?s \<le> j then nr_run_hysteresis ?s else 0))
       < ucast (5000 :: u64)"
    by (simp_all add: threshold_size_def NR_RUN_ECO_MODE_PROFILE_def boot_defs profile_defs)
  from b [rule_format, of 1] have b1: "push_bit 8 (thr 625) < (5000 :: u32)"
    by (simp add: boot_defs profile_defs f)
  from a have a1: "(5000 :: u32) \<le> push_bit 8 (thr 875 + 16)"
    by (simp add: boot_defs profile_defs f)
  from h a1 b1 show ?thesis by simp
qed

text \<open>
  C2 as stated fails. Balanced profile (thresholds 11, 16, 21), hysteresis 16, previous
  tier 2, sample 5000. Tier 1 is tested against 11, not against 11 + 16, although the
  previous tier 2 is \<open>\<ge>\<close> 1; with the claim's adjustment tier 1 would have been accepted
  (5000 \<open>\<le>\<close> 27 * 256), and the code returns tier 2. Tier 2 is tested against 16 + 16
  although the previous tier equals it, and that addition decides: 5000 is above 16 * 256.
\<close>

theorem hysteresis_when_last_ge_counterexample:
  "nr_threshold nr_run_thresholds_balance 16 2 1
     \<noteq> nr_run_thresholds_balance ! 0 + hysteresisAdjustment_spec 16 2 1
   \<and> map_option fst (calculate_thread_stats octa_kernel 5000 (octa_boot\<lparr>nr_run_last := 2\<rparr>))
       = Some 2
   \<and> (5000 :: u32)
       \<le> push_bit 8 (nr_run_thresholds_balance ! 0 + hysteresisAdjustment_spec 16 2 1)
   \<and> nr_threshold nr_run_thresholds_balance 16 2 2 = nr_run_thresholds_balance ! 1 + 16
   \<and> \<not> (5000 :: u32) \<le> push_bit 8 (nr_run_thresholds_balance ! 1)"
  by (simp add: eval_defs boot_defs hysteresisAdjustment_spec_def)

subsection \<open>The lowest and the highest tier\<close>

text \<open>A sample of 0 gives tier 1, whatever the profile, the hysteresis and the previous tier.\<close>

lemma zero_sample_lowest_tier:
  assumes "nr_run_profile_sel s < length nr_run_profiles" and "(ucast Lavg :: u32) = 0"
  shows "map_option fst (calculate_thread_stats k Lavg s) = Some 1"
proof -
  have "1 < threshold_size (nr_run_profile_sel s)"
    using threshold_size_ge [of "nr_run_profile_sel s"] by simp
  then have "thread_stats_loop p (threshold_size (nr_run_profile_sel s)) h l sh 0 1 = 1"
    for p h l sh
    by (subst thread_stats_loop.simps) simp
  with assms show ?thesis
    by (simp add: calculate_thread_stats_def Let_def)
qed

text \<open>
  A sample above every threshold the loop tests gives the size the loop scans: 4 for the
  selectors 0 to 2 and 2 for the selectors 3 to 6.
\<close>

lemma high_sample_threshold_size:
  assumes "calculate_thread_stats k Lavg s = Some (r, s')"
    and "\<forall>j. 1 \<le> j \<and> j < threshold_size (nr_run_profile_sel s) \<longrightarrow>
       push_bit (FSHIFT k - nr_fshift_sel (nr_run_profile_sel s))
         (nr_run_profiles ! nr_run_profile_sel s ! (j - 1)
            + (if nr_run_last s \<le> j then nr_run_hysteresis s else 0)) < ucast Lavg"
  shows "r = threshold_size (nr_run_profile_sel s)"
proof (rule ccontr)
  let ?sel = "nr_run_profile_sel s"
  let ?P = "nr_run_profiles ! ?sel"
  assume ne: "r \<noteq> threshold_size ?sel"
  from assms(1) have r: "r = thread_stats_loop ?P (threshold_size ?sel) (nr_run_hysteresis s)
       (nr_run_last s) (FSHIFT k - nr_fshift_sel ?sel) (ucast Lavg) 1"
    by (auto simp: calculate_thread_stats_def Let_def split: if_splits)
  have "1 \<le> threshold_size ?sel" using threshold_size_ge [of ?sel] by simp
  note spec = thread_stats_loop_spec [OF this, of ?P "nr_run_hysteresis s"
      "nr_run_last s" "FSHIFT k - nr_fshift_sel ?sel" "ucast Lavg", folded r, unfolded Let_def]
  from spec ne have lt: "r < threshold_size ?sel" and r1: "1 \<le> r"
    and le: "ucast Lavg \<le> push_bit (FSHIFT k - nr_fshift_sel ?sel)
       (nr_threshold ?P (nr_run_hysteresis s) (nr_run_last s) r)"
    by simp_all
  from assms(2) r1 lt have "push_bit (FSHIFT k - nr_fshift_sel ?sel)
       (nr_threshold ?P (nr_run_hysteresis s) (nr_run_last s) r) < ucast Lavg"
    by (auto simp: nr_threshold_def Let_def)
  with le show False by simp
qed

text \<open>
  C7 at the lazy profile. The table \<open>nr_run_thresholds_lazy\<close> has four entries, three
  of them finite (18, 35, 44), so its highest tier is 4. In lazy mode (selector 6) a
  sample of \<open>0xFFFFFFFF\<close>, above every entry scaled with the hysteresis, gives tier 2:
  for the selectors 3 and above the loop takes the size of the two-entry eco table.
\<close>

theorem lazy_profile_stops_at_tier_2:
  "length (nr_run_profiles ! 6) = 4
   \<and> nr_run_profile_sel (lazyplug_enter_lazy octa_kernel True octa_boot) = 6
   \<and> push_bit (11 - 1) (nr_run_profiles ! 6 ! 2 + 16) < (0xFFFFFFFF :: u32)
   \<and> map_option fst (calculate_thread_stats octa_kernel 0xFFFFFFFF
         (lazyplug_enter_lazy octa_kernel True octa_boot)) = Some 2"
  by (simp add: eval_defs boot_defs lazyplug_enter_lazy_def cpu_down_nocheck_def)

subsection \<open>A sample on a tier boundary\<close>

lemma unat_push_bit_u32:
  "unat b * 2 ^ n < 2 ^ 32 \<Longrightarrow> unat (push_bit n (b::u32)) = unat b * 2 ^ n"
proof -
  assume b: "unat b * 2 ^ n < 2 ^ 32"
  have "unat (push_bit n b) = take_bit 32 (push_bit n (unat b))"
    by (simp add: unsigned_push_bit_eq)
  also have "\<dots> = take_bit 32 (unat b * 2 ^ n)"
    by (simp add: push_bit_eq_mult)
  also from b have "\<dots> = unat b * 2 ^ n"
    by (simp add: take_bit_nat_eq_self)
  finally show ?thesis .
qed

lemma push_bit_mono_u32:
  "unat a \<le> unat b \<Longrightarrow> unat b * 2 ^ n < 2 ^ 32 \<Longrightarrow> push_bit n a \<le> push_bit n (b::u32)"
proof -
  assume le: "unat a \<le> unat b" and b: "unat b * 2 ^ n < 2 ^ 32"
  from le have "unat a * 2 ^ n \<le> unat b * 2 ^ n" by simp
  with b have a: "unat a * 2 ^ n < 2 ^ 32" by linarith
  show ?thesis
    using le by (simp add: word_le_nat_alt unat_push_bit_u32 [OF a] unat_push_bit_u32 [OF b])
qed

text \<open>With a table entry of at most 44 and a hysteresis below \<open>2^21\<close> nothing wraps.\<close>

lemma scaled_le_hyst:
  assumes t: "unat (t::u32) \<le> 44" and h: "unat (h::u32) < 2 ^ 21" and n: "n \<le> 10"
  shows "push_bit n t \<le> push_bit n (t + h)"
proof -
  from t h have sum: "unat (t + h) = unat t + unat h"
    by (subst unat_add_lem [symmetric]) simp
  have "(2::nat) ^ n \<le> 2 ^ 10" using n by (intro power_increasing) simp_all
  moreover from t h have "unat t + unat h < 2 ^ 22" by simp
  ultimately have "(unat t + unat h) * 2 ^ n < 2 ^ 22 * 2 ^ 10"
    by (intro mult_less_le_imp_less) simp_all
  then have "unat (t + h) * 2 ^ n < 2 ^ 32" by (simp add: sum)
  moreover have "unat t \<le> unat (t + h)" by (simp add: sum)
  ultimately show ?thesis by (rule push_bit_mono_u32 [rotated])
qed

text \<open>
  C8, as the code has it. Take a valid selector, \<open>FSHIFT = 11\<close>, a hysteresis below
  \<open>2^21\<close> and a tier \<open>t\<close> above the lowest among the tiers the loop scans, and let the
  sample be exactly the scaled table entry of the boundary between \<open>t - 1\<close> and \<open>t\<close>.
  With the previous tier \<open>t - 1\<close> the evaluator returns \<open>t - 1\<close>, as the claim says.
  With the previous tier \<open>t\<close> it returns \<open>t - 1\<close> too: it does drop below \<open>t\<close>, since
  the hysteresis is added only to tiers at or above the previous one, that is against
  going up.
\<close>

theorem boundary_sample_selects_lower_tier:
  assumes fs: "FSHIFT k = 11"
    and sel: "nr_run_profile_sel s < length nr_run_profiles"
    and t: "1 < t" "t \<le> threshold_size (nr_run_profile_sel s)"
    and h: "unat (nr_run_hysteresis s) < 2 ^ 21"
    and avg: "(ucast Lavg :: u32) =
       push_bit (FSHIFT k - nr_fshift_sel (nr_run_profile_sel s))
         (nr_run_profiles ! nr_run_profile_sel s ! (t - 2))"
    and last: "nr_run_last s = t \<or> nr_run_last s = t - 1"
  shows "map_option fst (calculate_thread_stats k Lavg s) = Some (t - 1)"
proof -
  have hy: "push_bit n x \<le> push_bit n (x + nr_run_hysteresis s)"
    if "unat x \<le> 44" "n \<le> 10" for x n
    using that h by (intro scaled_le_hyst) simp_all
  note hy = hy [of 11 8, simplified] hy [of 16 8, simplified] hy [of 21 8, simplified]
    hy [of 7 8, simplified] hy [of 30 8, simplified] hy [of 39 8, simplified]
    hy [of 7 10, simplified] hy [of 14 10, simplified] hy [of 0 10, simplified]
    hy [of 18 10, simplified]
  have four: "t = 2 \<or> t = 3 \<or> t = 4" if "nr_run_profile_sel s < 3"
    using t that by (simp add: threshold_size_def NR_RUN_ECO_MODE_PROFILE_def profile_defs) arith
  have two: "t = 2" if "3 \<le> nr_run_profile_sel s"
    using t that by (simp add: threshold_size_def NR_RUN_ECO_MODE_PROFILE_def profile_defs)
  from sel_cases [OF sel] show ?thesis
  proof (elim disjE)
    assume "nr_run_profile_sel s = 0"
    with four avg last fs hy show ?thesis by (auto simp: eval_defs)
  next
    assume "nr_run_profile_sel s = 1"
    with four avg last fs hy show ?thesis by (auto simp: eval_defs)
  next
    assume "nr_run_profile_sel s = 2"
    with four avg last fs hy show ?thesis by (auto simp: eval_defs)
  next
    assume "nr_run_profile_sel s = 3"
    with two avg last fs hy show ?thesis by (auto simp: eval_defs)
  next
    assume "nr_run_profile_sel s = 4"
    with two avg last fs hy show ?thesis by (auto simp: eval_defs)
  next
    assume "nr_run_profile_sel s = 5"
    with two avg last fs hy show ?thesis by (auto simp: eval_defs)
  next
    assume "nr_run_profile_sel s = 6"
    with two avg last fs hy show ?thesis by (auto simp: eval_defs)
  qed
qed

theorem boundary_sample_selects_lower_tier_witness:
  "map_option fst (calculate_thread_stats octa_kernel 4096 (octa_boot\<lparr>nr_run_last := 3\<rparr>)) = Some 2
   \<and> map_option fst (calculate_thread_stats octa_kernel 4096 (octa_boot\<lparr>nr_run_last := 2\<rparr>)) = Some 2"
proof -
  let ?s = "\<lambda>l. octa_boot\<lparr>nr_run_last := l\<rparr>"
  have fs: "FSHIFT octa_kernel = 11" by (simp add: octa_kernel_def)
  have sel: "nr_run_profile_sel (?s l) < length nr_run_profiles" for l
    by (simp add: boot_defs profile_defs)
  have t: "(1::nat) < 3" "3 \<le> threshold_size (nr_run_profile_sel (?s l))" for l
    by (simp_all add: boot_defs threshold_size_def NR_RUN_ECO_MODE_PROFILE_def profile_defs)
  have h: "unat (nr_run_hysteresis (?s l)) < 2 ^ 21" for l
    by (simp add: boot_defs)
  have avg: "(ucast (4096 :: u64) :: u32) =
       push_bit (FSHIFT octa_kernel - nr_fshift_sel (nr_run_profile_sel (?s l)))
         (nr_run_profiles ! nr_run_profile_sel (?s l) ! (3 - 2))" for l
    by (simp add: boot_defs nr_fshift_sel_def NR_RUN_ECO_MODE_PROFILE_def profile_defs thr_values)
  have l3: "nr_run_last (?s 3) = 3 \<or> nr_run_last (?s 3) = 3 - 1" by simp
  have l2: "nr_run_last (?s 2) = 3 \<or> nr_run_last (?s 2) = 3 - 1" by simp
  from boundary_sample_selects_lower_tier [OF fs sel t h avg l3]
    boundary_sample_selects_lower_tier [OF fs sel t h avg l2]
  show ?thesis by simp
qed

text \<open>
  C8 as stated fails: balanced profile, previous tier 2, sample \<open>11 * 256 = 2816\<close>, the
  scaled threshold of the boundary between tiers 1 and 2. The evaluator returns 1.
\<close>

theorem boundary_sample_drops_counterexample:
  "(ucast (2816 :: u64) :: u32)
     = push_bit (FSHIFT octa_kernel - nr_fshift_sel 0) (nr_run_profiles ! 0 ! (2 - 2))
   \<and> map_option fst (calculate_thread_stats octa_kernel 2816 (octa_boot\<lparr>nr_run_last := 2\<rparr>))
       = Some 1
   \<and> \<not> (2 :: nat) \<le> 1"
  by (simp add: eval_defs boot_defs)

section \<open>The hotplug requests of the helpers\<close>

lemma fold_cpu_up:
  "fold (cpu_up k) xs s =
     s\<lparr>calls := calls s @ map Cpu_up xs,
       online := fold (\<lambda>cpu. hotplug k (Cpu_up cpu)) xs (online s)\<rparr>"
  by (induction xs arbitrary: s) (simp_all add: cpu_up_def)

lemma fold_cpu_down:
  "fold (cpu_down k) xs s =
     s\<lparr>calls := calls s @ map Cpu_down xs,
       online := fold (\<lambda>cpu. hotplug k (Cpu_down cpu)) xs (online s)\<rparr>"
  by (induction xs arbitrary: s) (simp_all add: cpu_down_def)

lemma fold_cpu_down_nocheck:
  "fold (cpu_down_nocheck k) xs s =
     s\<lparr>calls := calls s @ map Cpu_down_nocheck xs,
       online := fold (\<lambda>cpu. hotplug k (Cpu_down_nocheck cpu)) xs (online s)\<rparr>"
  by (induction xs arbitrary: s) (simp_all add: cpu_down_nocheck_def)

lemma cpu_all_ctrl_calls:
  "calls (cpu_all_ctrl k onl s) = calls s @
     (if onl then (if lazymode s then map Cpu_up [1, 2, 3] else map Cpu_up [1 ..< nr_cpu_ids k])
      else map Cpu_down (rev [2 ..< nr_cpu_ids k]))"
  unfolding cpu_all_ctrl_def fold_cpu_up fold_cpu_down by simp

lemma cpu_all_ctrl_frame:
  "cpu_all_ctrl k onl s =
     s\<lparr>calls := calls (cpu_all_ctrl k onl s), online := online (cpu_all_ctrl k onl s)\<rparr>"
  unfolding cpu_all_ctrl_def fold_cpu_up fold_cpu_down by simp

lemma set_cpus_body_frame:
  "set_cpus_body k cpu s =
     s\<lparr>calls := calls (set_cpus_body k cpu s), online := online (set_cpus_body k cpu s)\<rparr>"
  by (simp add: set_cpus_body_def cpu_down_def)

lemma set_cpus_fold_frame:
  "fold (set_cpus_body k) xs s =
     s\<lparr>calls := calls (fold (set_cpus_body k) xs s),
       online := online (fold (set_cpus_body k) xs s)\<rparr>"
proof (induction xs arbitrary: s)
  case Nil
  show ?case by simp
next
  case (Cons x xs)
  show ?case
    by (simp, subst Cons, subst set_cpus_body_frame, simp)
qed

lemma set_cpus_fold_calls:
  "\<exists>ds. calls (fold (set_cpus_body k) xs s) = calls s @ ds \<and> (\<forall>c\<in>set ds. \<not> is_cpu_up c)"
proof (induction xs arbitrary: s)
  case Nil
  show ?case by simp
next
  case (Cons x xs)
  from Cons [of "set_cpus_body k x s"] obtain ds where
    f: "calls (fold (set_cpus_body k) xs (set_cpus_body k x s)) =
          calls (set_cpus_body k x s) @ ds"
    and d: "\<forall>c\<in>set ds. \<not> is_cpu_up c" by blast
  show ?case
  proof (cases "set_cpus_body k x s = s")
    case True
    with f d show ?thesis by auto
  next
    case False
    then have b: "calls (set_cpus_body k x s) = calls s @ [Cpu_down x]"
      by (auto simp: set_cpus_body_def cpu_down_def split: if_splits)
    from d have "\<forall>c\<in>set (Cpu_down x # ds). \<not> is_cpu_up c" by simp
    moreover have "calls (fold (set_cpus_body k) (x # xs) s) = calls s @ (Cpu_down x # ds)"
      by (simp add: f b)
    ultimately show ?thesis by blast
  qed
qed

lemma set_cpus_frame:
  "set_cpus k s = s\<lparr>calls := calls (set_cpus k s), online := online (set_cpus k s)\<rparr>"
  unfolding set_cpus_def by (rule set_cpus_fold_frame)

lemma set_cpus_calls:
  "\<exists>ds. calls (set_cpus k s) = calls s @ ds \<and> (\<forall>c\<in>set ds. \<not> is_cpu_up c)"
  unfolding set_cpus_def by (rule set_cpus_fold_calls)

lemma calculate_thread_stats_frame:
  "calculate_thread_stats k Lavg s = Some (r, s') \<Longrightarrow>
   s' = s\<lparr>nr_fshift := nr_fshift_sel (nr_run_profile_sel s), nr_run_last := r\<rparr>"
  by (auto simp: calculate_thread_stats_def Let_def split: if_splits)

lemma set_cpus_fields:
  "lazyplug_active (set_cpus k s) = lazyplug_active s"
  "nr_run_profile_sel (set_cpus k s) = nr_run_profile_sel s"
  "Lnr_run_profile_sel (set_cpus k s) = Lnr_run_profile_sel s"
  "persist_count (set_cpus k s) = persist_count s"
  "suspended (set_cpus k s) = suspended s"
  "cac_bool (set_cpus k s) = cac_bool s"
  "lazymode (set_cpus k s) = lazymode s"
  "nr_possible_cores (set_cpus k s) = nr_possible_cores s"
  "nr_run_last (set_cpus k s) = nr_run_last s"
  "idle_count (set_cpus k s) = idle_count s"
  "lazyplug_cac_queued (set_cpus k s) = lazyplug_cac_queued s"
  "cpu_all_up_work_queued (set_cpus k s) = cpu_all_up_work_queued s"
  by (subst set_cpus_frame, simp)+

lemma cpu_all_ctrl_fields:
  "lazyplug_active (cpu_all_ctrl k onl s) = lazyplug_active s"
  "nr_run_profile_sel (cpu_all_ctrl k onl s) = nr_run_profile_sel s"
  "Lnr_run_profile_sel (cpu_all_ctrl k onl s) = Lnr_run_profile_sel s"
  "persist_count (cpu_all_ctrl k onl s) = persist_count s"
  "suspended (cpu_all_ctrl k onl s) = suspended s"
  "cac_bool (cpu_all_ctrl k onl s) = cac_bool s"
  "lazymode (cpu_all_ctrl k onl s) = lazymode s"
  "nr_possible_cores (cpu_all_ctrl k onl s) = nr_possible_cores s"
  "nr_run_last (cpu_all_ctrl k onl s) = nr_run_last s"
  "idle_count (cpu_all_ctrl k onl s) = idle_count s"
  "lazyplug_cac_queued (cpu_all_ctrl k onl s) = lazyplug_cac_queued s"
  "cpu_all_up_work_queued (cpu_all_ctrl k onl s) = cpu_all_up_work_queued s"
  by (subst cpu_all_ctrl_frame, simp)+

text \<open>The branch \<open>if (!suspended)\<close> of the tick, field by field.\<close>

lemma work_fn_not_suspended_fields:
  "lazyplug_active (work_fn_not_suspended k cc s) = lazyplug_active s"
  "nr_run_profile_sel (work_fn_not_suspended k cc s) = nr_run_profile_sel s"
  "Lnr_run_profile_sel (work_fn_not_suspended k cc s) = Lnr_run_profile_sel s"
  "suspended (work_fn_not_suspended k cc s) = suspended s"
  "cac_bool (work_fn_not_suspended k cc s) = cac_bool s"
  "lazymode (work_fn_not_suspended k cc s) = lazymode s"
  "nr_possible_cores (work_fn_not_suspended k cc s) = nr_possible_cores s"
  "nr_run_last (work_fn_not_suspended k cc s) = nr_run_last s"
  "lazyplug_cac_queued (work_fn_not_suspended k cc s) = lazyplug_cac_queued s"
  "cpu_all_up_work_queued (work_fn_not_suspended k cc s) = cpu_all_up_work_queued s"
  unfolding work_fn_not_suspended_def fold_cpu_down
  by (simp_all add: Let_def cpu_all_ctrl_fields)

lemma work_fn_not_suspended_persist:
  "persist_count (work_fn_not_suspended k cc s) =
     (if persist_count s > 0 then persist_count s - 1 else persist_count s)"
  unfolding work_fn_not_suspended_def fold_cpu_down
  by (simp add: Let_def cpu_all_ctrl_fields)

lemma work_fn_not_suspended_idle:
  "idle_count (work_fn_not_suspended k cc s) =
     (if cc = 1 then (if idle_count s < DEF_IDLE_COUNT then idle_count s + 1 else idle_count s)
      else 0)"
  unfolding work_fn_not_suspended_def fold_cpu_down
  by (simp add: Let_def cpu_all_ctrl_fields)

lemma work_fn_not_suspended_calls:
  "calls (work_fn_not_suspended k cc s) = calls s @
     (if cc = 1 then
        (if (if idle_count s < DEF_IDLE_COUNT then idle_count s + 1 else idle_count s)
              = DEF_IDLE_COUNT
            \<and> (if persist_count s > 0 then persist_count s - 1 else persist_count s) = 0
         then map Cpu_down [7, 6, 5, 4, 3, 2] else [])
      else if lazymode s then map Cpu_up [1, 2, 3]
      else map Cpu_up [1 ..< nr_cpu_ids k])"
  unfolding work_fn_not_suspended_def fold_cpu_down
  by (auto simp: Let_def cpu_all_ctrl_calls cpu_all_ctrl_fields)

section \<open>The tick\<close>

lemma update_per_cpu_stat_fields:
  "lazyplug_active (update_per_cpu_stat c s) = lazyplug_active s"
  "nr_run_profile_sel (update_per_cpu_stat c s) = nr_run_profile_sel s"
  "Lnr_run_profile_sel (update_per_cpu_stat c s) = Lnr_run_profile_sel s"
  "persist_count (update_per_cpu_stat c s) = persist_count s"
  "suspended (update_per_cpu_stat c s) = suspended s"
  "cac_bool (update_per_cpu_stat c s) = cac_bool s"
  "lazymode (update_per_cpu_stat c s) = lazymode s"
  "nr_possible_cores (update_per_cpu_stat c s) = nr_possible_cores s"
  "nr_run_last (update_per_cpu_stat c s) = nr_run_last s"
  "idle_count (update_per_cpu_stat c s) = idle_count s"
  "calls (update_per_cpu_stat c s) = calls s"
  "lazyplug_cac_queued (update_per_cpu_stat c s) = lazyplug_cac_queued s"
  "cpu_all_up_work_queued (update_per_cpu_stat c s) = cpu_all_up_work_queued s"
  by (simp_all add: update_per_cpu_stat_def)

lemmas tick_helper_fields =
  update_per_cpu_stat_fields set_cpus_fields work_fn_not_suspended_fields

text \<open>A tick fails only by reading outside the profile table.\<close>

lemma lazyplug_work_fn_None:
  "lazyplug_work_fn k Lavg Lcpu s = None \<longleftrightarrow>
     lazyplug_active s \<noteq> 0 \<and> \<not> nr_run_profile_sel s < length nr_run_profiles"
  by (simp add: lazyplug_work_fn_def calculate_thread_stats_def Let_def)

text \<open>What a tick leaves alone.\<close>

lemma lazyplug_work_fn_fields:
  assumes "lazyplug_work_fn k Lavg Lcpu s = Some s'"
  shows "lazyplug_active s' = lazyplug_active s"
    and "nr_run_profile_sel s' = nr_run_profile_sel s"
    and "Lnr_run_profile_sel s' = Lnr_run_profile_sel s"
    and "suspended s' = suspended s"
    and "cac_bool s' = cac_bool s"
    and "lazymode s' = lazymode s"
    and "nr_possible_cores s' = nr_possible_cores s"
    and "lazyplug_cac_queued s' = lazyplug_cac_queued s"
    and "cpu_all_up_work_queued s' = cpu_all_up_work_queued s"
  using assms
  by (auto simp: lazyplug_work_fn_def Let_def tick_helper_fields
      dest!: calculate_thread_stats_frame split: if_splits option.splits)

lemma lazyplug_work_fn_persist:
  assumes "lazyplug_work_fn k Lavg Lcpu s = Some s'"
  shows "persist_count s' =
     (if lazyplug_active s \<noteq> 0 \<and> \<not> suspended s \<and> persist_count s > 0
      then persist_count s - 1 else persist_count s)"
  using assms
  by (auto simp: lazyplug_work_fn_def Let_def tick_helper_fields work_fn_not_suspended_persist
      dest!: calculate_thread_stats_frame split: if_splits option.splits)

text \<open>After a tick of the active driver \<open>nr_run_last\<close> is the tier the tick computed.\<close>

lemma lazyplug_work_fn_last:
  assumes "lazyplug_work_fn k Lavg Lcpu s = Some s'" and "lazyplug_active s \<noteq> 0"
  shows "map_option fst (calculate_thread_stats k Lavg s) = Some (nr_run_last s')"
  using assms
  by (auto simp: lazyplug_work_fn_def Let_def tick_helper_fields
      dest: calculate_thread_stats_frame split: if_splits option.splits)

text \<open>
  A tick of the active driver, not suspended, with the cap \<open>nr_possible_cores\<close> not
  below \<open>NR_CPUS\<close> (so that \<open>set_cpus\<close> is not called).
\<close>

lemma lazyplug_work_fn_running:
  assumes "lazyplug_work_fn k Lavg Lcpu s = Some s'"
    and "lazyplug_active s \<noteq> 0" "\<not> suspended s" "NR_CPUS k \<le> nr_possible_cores s"
  shows "idle_count s' =
      (if nr_run_last s' = 1
       then (if idle_count s < DEF_IDLE_COUNT then idle_count s + 1 else idle_count s)
       else 0)"
    and "calls s' = calls s @
      (if nr_run_last s' = 1 then
         (if (if idle_count s < DEF_IDLE_COUNT then idle_count s + 1 else idle_count s)
               = DEF_IDLE_COUNT
             \<and> (if persist_count s > 0 then persist_count s - 1 else persist_count s) = 0
          then map Cpu_down [7, 6, 5, 4, 3, 2] else [])
       else if lazymode s then map Cpu_up [1, 2, 3]
       else map Cpu_up [1 ..< nr_cpu_ids k])"
  using assms
  by (auto simp: lazyplug_work_fn_def Let_def tick_helper_fields work_fn_not_suspended_idle
      work_fn_not_suspended_calls
      dest!: calculate_thread_stats_frame split: if_splits option.splits)

section \<open>Runs of ticks\<close>

lemma run_length: "run k es s = Some ss \<Longrightarrow> length ss = length es"
  by (induction es arbitrary: s ss) (auto split: option.splits)

lemma run_append:
  "run k (es @ fs) s =
     (case run k es s of
        None \<Rightarrow> None
      | Some ss \<Rightarrow>
          (case run k fs (last (s # ss)) of None \<Rightarrow> None | Some ss' \<Rightarrow> Some (ss @ ss')))"
  by (induction es arbitrary: s) (auto split: option.splits)

text \<open>
  Ticks that all compute tier 1, on the active driver, not suspended, with
  \<open>persist_count = 0\<close> and the cap not lowered: as long as \<open>idle_count\<close> stays below
  \<open>DEF_IDLE_COUNT\<close> no tick makes a hotplug request.
\<close>

lemma idle_ticks_quiet:
  assumes "lazyplug_active s \<noteq> 0" "\<not> suspended s" "persist_count s = 0"
    and "NR_CPUS k \<le> nr_possible_cores s"
    and "run k (map (case_prod Tick) ticks) s = Some ss"
    and "\<forall>s'\<in>set ss. nr_run_last s' = 1"
    and "idle_count s + length ticks < DEF_IDLE_COUNT"
  shows "(\<forall>s'\<in>set ss. calls s' = calls s) \<and>
     lazyplug_active (last (s # ss)) \<noteq> 0 \<and> \<not> suspended (last (s # ss)) \<and>
     persist_count (last (s # ss)) = 0 \<and>
     NR_CPUS k \<le> nr_possible_cores (last (s # ss)) \<and>
     idle_count (last (s # ss)) = idle_count s + length ticks \<and>
     calls (last (s # ss)) = calls s"
  using assms
proof (induction ticks arbitrary: s ss)
  case Nil
  then show ?case by simp
next
  case (Cons x ticks)
  obtain Lavg Lcpu where x: "x = (Lavg, Lcpu)" by (cases x)
  from Cons.prems(5) x obtain s1 ss1 where
    t: "lazyplug_work_fn k Lavg Lcpu s = Some s1"
    and r: "run k (map (case_prod Tick) ticks) s1 = Some ss1"
    and ss: "ss = s1 # ss1"
    by (auto split: option.splits)
  from Cons.prems(6) ss have l1: "nr_run_last s1 = 1" and rest: "\<forall>s'\<in>set ss1. nr_run_last s' = 1"
    by simp_all
  from Cons.prems(7) have lt: "idle_count s < DEF_IDLE_COUNT" by simp
  note f = lazyplug_work_fn_fields [OF t]
  from lazyplug_work_fn_persist [OF t] Cons.prems(3) have p1: "persist_count s1 = 0" by simp
  from lazyplug_work_fn_running [OF t Cons.prems(1,2,4)] l1 lt Cons.prems(7)
  have i1: "idle_count s1 = idle_count s + 1" and c1: "calls s1 = calls s"
    by simp_all
  have "(\<forall>s'\<in>set ss1. calls s' = calls s1) \<and>
     lazyplug_active (last (s1 # ss1)) \<noteq> 0 \<and> \<not> suspended (last (s1 # ss1)) \<and>
     persist_count (last (s1 # ss1)) = 0 \<and>
     NR_CPUS k \<le> nr_possible_cores (last (s1 # ss1)) \<and>
     idle_count (last (s1 # ss1)) = idle_count s1 + length ticks \<and>
     calls (last (s1 # ss1)) = calls s1"
  proof (rule Cons.IH [OF _ _ p1 _ r rest])
    show "lazyplug_active s1 \<noteq> 0" using f(1) Cons.prems(1) by simp
    show "\<not> suspended s1" using f(4) Cons.prems(2) by simp
    show "NR_CPUS k \<le> nr_possible_cores s1" using f(7) Cons.prems(4) by simp
    show "idle_count s1 + length ticks < DEF_IDLE_COUNT" using i1 Cons.prems(7) by simp
  qed
  with ss i1 c1 show ?case by simp
qed

text \<open>
  C1, as the code has it. The idle shutdown belongs to the branch the tick takes when the
  driver is not suspended. There, with the driver active, \<open>persist_count = 0\<close>,
  \<open>idle_count = 0\<close> at the start and the cap \<open>nr_possible_cores\<close> not lowered, 19
  ticks that all compute the lowest tier make no hotplug request on the first 18, and on
  the 19th request cpus 7, 6, 5, 4, 3, 2 offline, in this order (cpu 0 and cpu 1 stay).
  That a tick computed the lowest tier is read off the state it leaves: \<open>nr_run_last\<close>
  is 1.
\<close>

theorem idle_shutdown_on_19th_tick:
  assumes "lazyplug_active s \<noteq> 0" "\<not> suspended s" "persist_count s = 0" "idle_count s = 0"
    and "NR_CPUS k \<le> nr_possible_cores s"
    and "length ticks = 19"
    and "run k (map (case_prod Tick) ticks) s = Some ss"
    and "\<forall>s'\<in>set ss. nr_run_last s' = 1"
  shows "(\<forall>i<18. calls (ss ! i) = calls s) \<and>
     calls (ss ! 18) = calls s @ map Cpu_down [7, 6, 5, 4, 3, 2]"
proof -
  let ?T = "map (case_prod Tick)"
  obtain Lavg Lcpu where x: "ticks ! 18 = (Lavg, Lcpu)" by (cases "ticks ! 18")
  from assms(6) have "take (Suc 18) ticks = take 18 ticks @ [ticks ! 18]"
    by (intro take_Suc_conv_app_nth) simp
  moreover from assms(6) have "take (Suc 18) ticks = ticks" by simp
  ultimately have split: "ticks = take 18 ticks @ [ticks ! 18]" by simp
  have "?T ticks = ?T (take 18 ticks) @ [Tick Lavg Lcpu]"
    by (subst split) (simp add: x)
  with assms(7) have "run k (?T (take 18 ticks) @ [Tick Lavg Lcpu]) s = Some ss"
    by simp
  then obtain ss1 s19 where r1: "run k (?T (take 18 ticks)) s = Some ss1"
    and t: "lazyplug_work_fn k Lavg Lcpu (last (s # ss1)) = Some s19"
    and ss: "ss = ss1 @ [s19]"
    by (auto simp: run_append split: option.splits)
  from run_length [OF r1] assms(6) have len: "length ss1 = 18" by simp
  from assms(8) ss have all1: "\<forall>s'\<in>set ss1. nr_run_last s' = 1" and l19: "nr_run_last s19 = 1"
    by simp_all
  have "idle_count s + length (take 18 ticks) < DEF_IDLE_COUNT"
    using assms(4,6) by (simp add: DEF_IDLE_COUNT_def)
  from idle_ticks_quiet [OF assms(1,2,3,5) r1 all1 this] assms(4,6)
  have q: "\<forall>s'\<in>set ss1. calls s' = calls s"
    and a: "lazyplug_active (last (s # ss1)) \<noteq> 0" and b: "\<not> suspended (last (s # ss1))"
    and p: "persist_count (last (s # ss1)) = 0"
    and c: "NR_CPUS k \<le> nr_possible_cores (last (s # ss1))"
    and i: "idle_count (last (s # ss1)) = 18"
    and cl: "calls (last (s # ss1)) = calls s"
    by simp_all
  from lazyplug_work_fn_running(2) [OF t a b c] l19 p i cl
  have c19: "calls s19 = calls s @ map Cpu_down [7, 6, 5, 4, 3, 2]"
    by (simp add: DEF_IDLE_COUNT_def)
  have "calls (ss ! i) = calls s" if "i < 18" for i
    using that q len ss by (simp add: nth_append)
  moreover have "calls (ss ! 18) = calls s @ map Cpu_down [7, 6, 5, 4, 3, 2]"
    using c19 len ss by (simp add: nth_append)
  ultimately show ?thesis by blast
qed

theorem idle_shutdown_on_19th_tick_witness:
  "\<exists>ss. run octa_kernel (map (case_prod Tick) (replicate 19 (0, \<lambda>cpu. 0))) octa_boot = Some ss
     \<and> calls (ss ! 0) = [] \<and> calls (ss ! 17) = []
     \<and> calls (ss ! 18) = map Cpu_down [7, 6, 5, 4, 3, 2]"
proof -
  let ?ticks = "replicate 19 (0 :: u64, \<lambda>cpu :: nat. 0 :: u64)"
  have "map_option (map nr_run_last) (run octa_kernel (map (case_prod Tick) ?ticks) octa_boot)
      = Some (replicate 19 1)"
    by (simp add: numeral_eq_Suc tick_defs eval_defs boot_defs)
  then obtain ss where r: "run octa_kernel (map (case_prod Tick) ?ticks) octa_boot = Some ss"
    and l: "map nr_run_last ss = replicate 19 1"
    by auto
  from l have all1: "\<forall>s'\<in>set ss. nr_run_last s' = 1"
    by (metis (no_types, lifting) in_set_replicate image_eqI list.set_map)
  have a: "lazyplug_active octa_boot \<noteq> 0" "\<not> suspended octa_boot"
    "persist_count octa_boot = 0" "idle_count octa_boot = 0"
    "NR_CPUS octa_kernel \<le> nr_possible_cores octa_boot"
    by (simp_all add: boot_defs)
  have len: "length ?ticks = 19" by simp
  from idle_shutdown_on_19th_tick [OF a len r all1]
  have "calls (ss ! 0) = calls octa_boot" "calls (ss ! 17) = calls octa_boot"
    "calls (ss ! 18) = calls octa_boot @ map Cpu_down [7, 6, 5, 4, 3, 2]"
    by simp_all
  with r show ?thesis by (simp add: boot_defs)
qed

text \<open>
  C1 as stated fails: with the suspended flag true, 19 ticks that compute the lowest tier
  with \<open>persist_count = 0\<close> make no hotplug request at all.
\<close>

theorem suspended_idle_ticks_counterexample:
  "persist_count (octa_boot\<lparr>suspended := True\<rparr>) = 0
   \<and> lazyplug_active (octa_boot\<lparr>suspended := True\<rparr>) \<noteq> 0
   \<and> map_option (map (\<lambda>s'. (suspended s', nr_run_last s', calls s')))
       (run octa_kernel (replicate 19 (Tick 0 (\<lambda>cpu. 0))) (octa_boot\<lparr>suspended := True\<rparr>))
     = Some (replicate 19 (True, 1, []))"
  by (simp add: numeral_eq_Suc tick_defs eval_defs boot_defs)

section \<open>Events\<close>

text \<open>The hotplug requests of any tick: first those of \<open>set_cpus\<close>, all offline
  requests, then those of the branch \<open>if (!suspended)\<close>.\<close>

lemma lazyplug_work_fn_calls:
  assumes "lazyplug_work_fn k Lavg Lcpu s = Some s'"
  shows "\<exists>ds. (\<forall>c\<in>set ds. \<not> is_cpu_up c) \<and>
     calls s' = calls s @ ds @
       (if lazyplug_active s \<noteq> 0 \<and> \<not> suspended s then
          (if nr_run_last s' = 1 then
             (if (if idle_count s < DEF_IDLE_COUNT then idle_count s + 1 else idle_count s)
                   = DEF_IDLE_COUNT
                 \<and> (if persist_count s > 0 then persist_count s - 1 else persist_count s) = 0
              then map Cpu_down [7, 6, 5, 4, 3, 2] else [])
           else if lazymode s then map Cpu_up [1, 2, 3]
           else map Cpu_up [1 ..< nr_cpu_ids k])
        else [])"
proof (cases "lazyplug_active s \<noteq> 0")
  case False
  with assms have "calls s' = calls s" by (auto simp: lazyplug_work_fn_def)
  with False show ?thesis by simp
next
  case True
  with assms obtain r s1 where c: "calculate_thread_stats k Lavg s = Some (r, s1)"
    by (auto simp: lazyplug_work_fn_def split: option.splits)
  let ?s2 = "update_per_cpu_stat Lcpu s1"
  let ?s3 = "if NR_CPUS k > nr_possible_cores ?s2 then set_cpus k ?s2 else ?s2"
  note s1 = calculate_thread_stats_frame [OF c]
  have "\<exists>ds. calls ?s3 = calls s @ ds \<and> (\<forall>c\<in>set ds. \<not> is_cpu_up c)"
    using set_cpus_calls [of k ?s2] by (simp add: update_per_cpu_stat_fields s1)
  then obtain ds where ds: "calls ?s3 = calls s @ ds" "\<forall>c\<in>set ds. \<not> is_cpu_up c" by blast
  have f3: "suspended ?s3 = suspended s" "idle_count ?s3 = idle_count s"
    "persist_count ?s3 = persist_count s" "lazymode ?s3 = lazymode s" "nr_run_last ?s3 = r"
    by (simp_all add: tick_helper_fields s1)
  from assms True c have s': "s' = (if \<not> suspended ?s3 then work_fn_not_suspended k r ?s3 else ?s3)
      \<lparr>lazyplug_work_queued := True\<rparr>"
    by (simp add: lazyplug_work_fn_def Let_def)
  show ?thesis
  proof (cases "suspended s")
    case True
    with s' f3 ds \<open>lazyplug_active s \<noteq> 0\<close> show ?thesis by auto
  next
    case False
    with s' f3 have "calls s' = calls (work_fn_not_suspended k r ?s3)"
      and "nr_run_last s' = r"
      by (simp_all add: work_fn_not_suspended_fields)
    with False ds f3 \<open>lazyplug_active s \<noteq> 0\<close> show ?thesis
      by (simp only: work_fn_not_suspended_calls) auto
  qed
qed

lemma new_calls_append [simp]: "calls s' = calls s @ cs \<Longrightarrow> new_calls s s' = cs"
  by (simp add: new_calls_def)

lemma new_calls_same [simp]: "calls s' = calls s \<Longrightarrow> new_calls s s' = []"
  by (simp add: new_calls_def)

text \<open>Every step only appends to the log of requests.\<close>

lemma step_calls:
  assumes "step k e s = Some s'"
  shows "calls s' = calls s @ new_calls s s'"
proof (cases e)
  case (Tick Lavg Lcpu)
  with assms lazyplug_work_fn_calls [of k Lavg Lcpu s s'] show ?thesis
    by (auto simp: new_calls_def)
next
  case (Fb_blank b)
  with assms show ?thesis by (cases b) (auto simp: event_defs Let_def new_calls_def)
next
  case (Enter_lazy enter)
  with assms show ?thesis
    by (auto simp: event_defs new_calls_def cpu_down_nocheck_def split: if_splits)
next
  case Run_cac
  with assms show ?thesis
    by (auto simp: event_defs new_calls_def cpu_all_ctrl_calls)
next
  case Run_cpu_all_up
  with assms show ?thesis
    by (auto simp: event_defs new_calls_def cpu_all_ctrl_calls)
qed

text \<open>
  C4, as the code has it. Let the driver be suspended and take any one step. A tick
  requests no cpu online. A request to bring a cpu online is made only when the workqueue
  runs \<open>cpu_all_up_work\<close>, or runs \<open>lazyplug_cac\<close> with \<open>cac_bool\<close> set.
  \<open>cpu_all_up_work\<close> is queued by the resume event only; \<open>lazyplug_cac\<close> is queued
  with \<open>cac_bool\<close> set by the resume event and by leaving lazy mode, which does not look
  at the suspended flag.
\<close>

theorem suspended_ups_only_from_forced_online_work:
  assumes "suspended s" and "step k e s = Some s'"
  shows "((\<exists>Lavg Lcpu. e = Tick Lavg Lcpu) \<longrightarrow> (\<forall>c\<in>set (new_calls s s'). \<not> is_cpu_up c))
     \<and> ((\<exists>c\<in>set (new_calls s s'). is_cpu_up c) \<longrightarrow>
          e = Run_cpu_all_up \<and> cpu_all_up_work_queued s
          \<or> e = Run_cac \<and> lazyplug_cac_queued s \<and> cac_bool s)
     \<and> (cpu_all_up_work_queued s' \<and> \<not> cpu_all_up_work_queued s \<longrightarrow>
          e = Fb_blank FB_BLANK_UNBLANK)
     \<and> (lazyplug_cac_queued s' \<and> cac_bool s' \<and> \<not> (lazyplug_cac_queued s \<and> cac_bool s) \<longrightarrow>
          e = Fb_blank FB_BLANK_UNBLANK \<or> e = Enter_lazy False)"
proof (cases e)
  case (Tick Lavg Lcpu)
  with assms have t: "lazyplug_work_fn k Lavg Lcpu s = Some s'" by simp
  from lazyplug_work_fn_calls [OF t] assms(1) obtain ds where
    "\<forall>c\<in>set ds. \<not> is_cpu_up c" "calls s' = calls s @ ds" by auto
  then have "\<forall>c\<in>set (new_calls s s'). \<not> is_cpu_up c" by simp
  with Tick lazyplug_work_fn_fields [OF t] show ?thesis by auto
next
  case (Fb_blank b)
  with assms show ?thesis by (cases b) (auto simp: event_defs Let_def split: if_splits)
next
  case (Enter_lazy enter)
  with assms show ?thesis
    by (auto simp: event_defs new_calls_def cpu_down_nocheck_def split: if_splits)
next
  case Run_cac
  with assms show ?thesis
    by (auto simp: event_defs cpu_all_ctrl_calls cpu_all_ctrl_fields split: if_splits)
next
  case Run_cpu_all_up
  with assms show ?thesis
    by (auto simp: event_defs cpu_all_ctrl_calls cpu_all_ctrl_fields split: if_splits)
qed

theorem suspended_ups_only_from_forced_online_work_witness:
  "\<exists>s'. step octa_kernel (Tick 0xFFFFFFFF (\<lambda>cpu. 0))
          (octa_boot\<lparr>suspended := True, nr_possible_cores := 4\<rparr>) = Some s'
     \<and> new_calls (octa_boot\<lparr>suspended := True, nr_possible_cores := 4\<rparr>) s'
         = map Cpu_down [7, 6, 5, 4]
     \<and> \<not> list_ex is_cpu_up (new_calls (octa_boot\<lparr>suspended := True, nr_possible_cores := 4\<rparr>) s')"
proof -
  let ?s = "octa_boot\<lparr>suspended := True, nr_possible_cores := 4\<rparr>"
  let ?e = "Tick 0xFFFFFFFF (\<lambda>cpu. 0)"
  have "map_option calls (step octa_kernel ?e ?s) = Some (map Cpu_down [7, 6, 5, 4])"
    by (simp add: tick_defs eval_defs boot_defs upt_1_8)
  then obtain s' where st: "step octa_kernel ?e ?s = Some s'"
    and c: "calls s' = map Cpu_down [7, 6, 5, 4]" by auto
  have su: "suspended ?s" by simp
  have "calls ?s = []" by (simp add: boot_defs)
  with c have n: "new_calls ?s s' = map Cpu_down [7, 6, 5, 4]" by (simp add: new_calls_def)
  from suspended_ups_only_from_forced_online_work [OF su st]
  have "\<forall>c\<in>set (new_calls ?s s'). \<not> is_cpu_up c" by blast
  then have "\<not> list_ex is_cpu_up (new_calls ?s s')" by (simp add: list_ex_iff)
  with st n show ?thesis by blast
qed

text \<open>
  C4 as stated fails in its second half. From boot: enter lazy mode, blank the display
  (suspend), let the queued \<open>lazyplug_cac\<close> run, leave lazy mode, let \<open>lazyplug_cac\<close>
  run again. No resume event has happened and the driver is suspended before and after
  the last step, which requests cpus 1 to 7 online.
\<close>

theorem exit_lazy_while_suspended_counterexample:
  "map_option (\<lambda>ss. (suspended (ss ! 3), suspended (ss ! 4), new_calls (ss ! 3) (ss ! 4)))
     (run octa_kernel
        [Enter_lazy True, Fb_blank FB_BLANK_POWERDOWN, Run_cac, Enter_lazy False, Run_cac]
        octa_boot)
   = Some (True, True, map Cpu_up [1, 2, 3, 4, 5, 6, 7])"
  by (simp add: event_defs tick_defs boot_defs upt_1_8 new_calls_def)

section \<open>\<open>persist_count\<close>\<close>

lemma step_persist:
  assumes "step k e s = Some s'"
  shows "((\<exists>Lavg Lcpu. e = Tick Lavg Lcpu) \<longrightarrow>
            persist_count s' \<le> persist_count s \<and> persist_count s - 1 \<le> persist_count s'
            \<and> (0 \<le> persist_count s \<longrightarrow> 0 \<le> persist_count s'))
     \<and> (persist_count s' \<noteq> persist_count s \<and> (\<forall>Lavg Lcpu. e \<noteq> Tick Lavg Lcpu) \<longrightarrow>
            e = Fb_blank FB_BLANK_UNBLANK \<and> persist_count s' = BUSY_PERSISTENCE)"
proof (cases e)
  case (Tick Lavg Lcpu)
  with assms have t: "lazyplug_work_fn k Lavg Lcpu s = Some s'" by simp
  from lazyplug_work_fn_persist [OF t] Tick show ?thesis by auto
next
  case (Fb_blank b)
  with assms show ?thesis by (cases b) (auto simp: event_defs Let_def split: if_splits)
next
  case (Enter_lazy enter)
  with assms show ?thesis
    by (auto simp: event_defs cpu_down_nocheck_def split: if_splits)
next
  case Run_cac
  with assms show ?thesis
    by (auto simp: event_defs cpu_all_ctrl_fields split: if_splits)
next
  case Run_cpu_all_up
  with assms show ?thesis
    by (auto simp: event_defs cpu_all_ctrl_fields split: if_splits)
qed

lemma run_persist_range:
  assumes "run k es s = Some ss" and "0 \<le> persist_count s" "persist_count s \<le> BUSY_PERSISTENCE"
  shows "\<forall>s'\<in>set ss. 0 \<le> persist_count s' \<and> persist_count s' \<le> BUSY_PERSISTENCE"
  using assms
proof (induction es arbitrary: s ss)
  case Nil
  then show ?case by simp
next
  case (Cons e es)
  from Cons.prems(1) obtain s1 ss1 where st: "step k e s = Some s1"
    and r: "run k es s1 = Some ss1" and ss: "ss = s1 # ss1"
    by (auto split: option.splits)
  from step_persist [OF st] Cons.prems(2,3)
  have p: "0 \<le> persist_count s1 \<and> persist_count s1 \<le> BUSY_PERSISTENCE"
    by (cases "\<exists>Lavg Lcpu. e = Tick Lavg Lcpu") (auto simp: BUSY_PERSISTENCE_value)
  with Cons.IH [OF r] ss show ?case by simp
qed

text \<open>
  C9. In every state of every run from boot \<open>persist_count\<close> is between 0 and 26. A tick
  leaves it or lowers it by 1, and never takes it from 0 or above to below 0. The only
  step that raises it is the resume event (the unblank event of the framebuffer), which
  sets it to \<open>BUSY_PERSISTENCE = 26\<close>. And in the branch of the tick that holds the idle
  shutdown, the test \<open>persist_count == 0\<close> comes after the decrement: when the value the
  branch leaves is above 0, the branch has requested no cpu offline. (A tick that starts
  with \<open>persist_count = 1\<close> lowers it to 0 first and may then shut down.)
\<close>

theorem persist_count_discipline:
  "(run k es (lazyplug_init (initial_state k)) = Some ss \<longrightarrow>
      (\<forall>s'\<in>set ss. 0 \<le> persist_count s' \<and> persist_count s' \<le> 26))
   \<and> (step k e s = Some s' \<longrightarrow>
        ((\<exists>Lavg Lcpu. e = Tick Lavg Lcpu) \<longrightarrow>
            persist_count s' \<le> persist_count s \<and> persist_count s - 1 \<le> persist_count s'
            \<and> (0 \<le> persist_count s \<longrightarrow> 0 \<le> persist_count s'))
        \<and> (persist_count s < persist_count s' \<longrightarrow>
            e = Fb_blank FB_BLANK_UNBLANK \<and> persist_count s' = 26))
   \<and> (0 < persist_count (work_fn_not_suspended k cpu_count s) \<longrightarrow>
        (\<forall>c\<in>set (new_calls s (work_fn_not_suspended k cpu_count s)). is_cpu_up c))"
proof -
  have A: "\<forall>s'\<in>set ss. 0 \<le> persist_count s' \<and> persist_count s' \<le> 26"
    if "run k es (lazyplug_init (initial_state k)) = Some ss"
  proof -
    have "persist_count (lazyplug_init (initial_state k)) = 0"
      by (simp add: lazyplug_init_def initial_state_def Let_def)
    with run_persist_range [OF that] show ?thesis
      by (simp add: BUSY_PERSISTENCE_value)
  qed
  have B: "((\<exists>Lavg Lcpu. e = Tick Lavg Lcpu) \<longrightarrow>
            persist_count s' \<le> persist_count s \<and> persist_count s - 1 \<le> persist_count s'
            \<and> (0 \<le> persist_count s \<longrightarrow> 0 \<le> persist_count s'))
        \<and> (persist_count s < persist_count s' \<longrightarrow>
            e = Fb_blank FB_BLANK_UNBLANK \<and> persist_count s' = 26)"
    if st: "step k e s = Some s'"
  proof (cases "\<exists>Lavg Lcpu. e = Tick Lavg Lcpu")
    case True
    with step_persist [OF st] have "persist_count s' \<le> persist_count s"
      "persist_count s - 1 \<le> persist_count s'"
      "0 \<le> persist_count s \<longrightarrow> 0 \<le> persist_count s'" by blast+
    then show ?thesis by simp
  next
    case False
    with step_persist [OF st] have "persist_count s' \<noteq> persist_count s \<longrightarrow>
       e = Fb_blank FB_BLANK_UNBLANK \<and> persist_count s' = 26"
      unfolding BUSY_PERSISTENCE_value by blast
    with False show ?thesis by simp
  qed
  have C: "\<forall>c\<in>set (new_calls s (work_fn_not_suspended k cpu_count s)). is_cpu_up c"
    if pos: "0 < persist_count (work_fn_not_suspended k cpu_count s)"
  proof -
    let ?w = "work_fn_not_suspended k cpu_count s"
    from pos have ne: "(if persist_count s > 0 then persist_count s - 1 else persist_count s) \<noteq> 0"
      unfolding work_fn_not_suspended_persist by simp
    have "calls ?w = calls s @
       (if cpu_count = 1 then []
        else if lazymode s then map Cpu_up [1, 2, 3]
        else map Cpu_up [1 ..< nr_cpu_ids k])"
      unfolding work_fn_not_suspended_calls using ne by auto
    then have "new_calls s ?w =
       (if cpu_count = 1 then []
        else if lazymode s then map Cpu_up [1, 2, 3]
        else map Cpu_up [1 ..< nr_cpu_ids k])"
      by (rule new_calls_append)
    then show ?thesis by simp
  qed
  from A B C show ?thesis by blast
qed

theorem persist_count_discipline_witness:
  "(\<exists>ss. run octa_kernel [Fb_blank FB_BLANK_UNBLANK, Tick 0 (\<lambda>cpu. 0), Tick 0 (\<lambda>cpu. 0)]
            (lazyplug_init (initial_state octa_kernel)) = Some ss
         \<and> map persist_count ss = [26, 25, 24]
         \<and> list_all (\<lambda>s'. 0 \<le> persist_count s' \<and> persist_count s' \<le> 26) ss)
   \<and> persist_count (work_fn_not_suspended octa_kernel 1
         (octa_boot\<lparr>persist_count := 5, idle_count := 19\<rparr>)) = 4
   \<and> list_all is_cpu_up (new_calls (octa_boot\<lparr>persist_count := 5, idle_count := 19\<rparr>)
         (work_fn_not_suspended octa_kernel 1 (octa_boot\<lparr>persist_count := 5, idle_count := 19\<rparr>)))"
proof -
  let ?es = "[Fb_blank FB_BLANK_UNBLANK, Tick 0 (\<lambda>cpu. 0), Tick 0 (\<lambda>cpu. 0)]"
  let ?S = "octa_boot\<lparr>persist_count := 5, idle_count := 19\<rparr>"
  have "map_option (map persist_count) (run octa_kernel ?es (lazyplug_init (initial_state octa_kernel)))
      = Some [26, 25, 24]"
    by (simp add: event_defs tick_defs eval_defs boot_defs BUSY_PERSISTENCE_value)
  then obtain ss where r: "run octa_kernel ?es (lazyplug_init (initial_state octa_kernel)) = Some ss"
    and m: "map persist_count ss = [26, 25, 24]" by auto
  have p: "persist_count (work_fn_not_suspended octa_kernel 1 ?S) = 4"
    by (simp add: work_fn_not_suspended_persist)
  note th = persist_count_discipline [where k = octa_kernel and es = ?es and ss = ss
      and s = ?S and cpu_count = 1]
  from th r have "\<forall>s'\<in>set ss. 0 \<le> persist_count s' \<and> persist_count s' \<le> 26" by blast
  then have a: "list_all (\<lambda>s'. 0 \<le> persist_count s' \<and> persist_count s' \<le> 26) ss"
    by (simp add: list_all_iff)
  from th p have "\<forall>c\<in>set (new_calls ?S (work_fn_not_suspended octa_kernel 1 ?S)). is_cpu_up c"
    by simp
  then have b: "list_all is_cpu_up (new_calls ?S (work_fn_not_suspended octa_kernel 1 ?S))"
    by (simp add: list_all_iff)
  show ?thesis using r m a p b by (intro conjI exI [of _ ss]) assumption+
qed

section \<open>Lazy mode and the forced scale-up\<close>

text \<open>In lazy mode a whole tick requests no cpu online but 1, 2 and 3.\<close>

lemma lazy_tick_ups:
  assumes "lazymode s" and t: "lazyplug_work_fn k Lavg Lcpu s = Some s'"
  shows "\<forall>cpu. Cpu_up cpu \<in> set (new_calls s s') \<longrightarrow> cpu \<in> {1, 2, 3}"
proof -
  let ?cs = "if lazyplug_active s \<noteq> 0 \<and> \<not> suspended s then
          (if nr_run_last s' = 1 then
             (if (if idle_count s < DEF_IDLE_COUNT then idle_count s + 1 else idle_count s)
                   = DEF_IDLE_COUNT
                 \<and> (if persist_count s > 0 then persist_count s - 1 else persist_count s) = 0
              then map Cpu_down [7, 6, 5, 4, 3, 2] else [])
           else map Cpu_up [1, 2, 3])
        else []"
  from lazyplug_work_fn_calls [OF t] assms(1) obtain ds where
    ds: "\<forall>c\<in>set ds. \<not> is_cpu_up c" and c: "calls s' = calls s @ ds @ ?cs"
    by auto
  from c have n: "new_calls s s' = ds @ ?cs" by (rule new_calls_append)
  show ?thesis
  proof (intro allI impI)
    fix cpu assume "Cpu_up cpu \<in> set (new_calls s s')"
    with n have "Cpu_up cpu \<in> set ds \<or> Cpu_up cpu \<in> set ?cs" by simp
    moreover from ds have "Cpu_up cpu \<notin> set ds" by fastforce
    ultimately have "Cpu_up cpu \<in> set ?cs" by simp
    then show "cpu \<in> {1, 2, 3}" by (auto split: if_splits)
  qed
qed

text \<open>
  C10. In lazy mode every way into \<open>cpu_all_ctrl(true)\<close> requests cpus 1, 2 and 3 online
  and nothing else: the call itself, the work item \<open>cpu_all_up\<close> that the resume event
  schedules, the work item \<open>lazyplug_cac\<close> with \<open>cac_bool\<close> set, and the branch of the
  tick for a tier above the lowest. No cpu from 4 up is requested online, by any of them
  or by a whole tick.
\<close>

theorem lazy_mode_scale_up_first_cluster_only:
  assumes "lazymode s"
  shows "new_calls s (cpu_all_ctrl k True s) = [Cpu_up 1, Cpu_up 2, Cpu_up 3]
     \<and> new_calls s (cpu_all_up k s) = [Cpu_up 1, Cpu_up 2, Cpu_up 3]
     \<and> (cac_bool s \<longrightarrow> new_calls s (lazyplug_cac_fn k s) = [Cpu_up 1, Cpu_up 2, Cpu_up 3])
     \<and> (lazyplug_active s \<noteq> 0 \<longrightarrow>
          new_calls (lazyplug_resume s) (run_cpu_all_up_work k (lazyplug_resume s))
            = [Cpu_up 1, Cpu_up 2, Cpu_up 3]
          \<and> new_calls (lazyplug_resume s) (run_lazyplug_cac k (lazyplug_resume s))
            = [Cpu_up 1, Cpu_up 2, Cpu_up 3])
     \<and> (cpu_count \<noteq> 1 \<longrightarrow>
          new_calls s (work_fn_not_suspended k cpu_count s) = [Cpu_up 1, Cpu_up 2, Cpu_up 3])
     \<and> (\<forall>cpu \<ge> 4. Cpu_up cpu \<notin> set (new_calls s (cpu_all_ctrl k True s)))
     \<and> (lazyplug_work_fn k Lavg Lcpu s = Some s' \<longrightarrow>
          (\<forall>cpu. Cpu_up cpu \<in> set (new_calls s s') \<longrightarrow> cpu \<in> {1, 2, 3}))"
proof -
  from assms have a: "new_calls s (cpu_all_ctrl k True s) = [Cpu_up 1, Cpu_up 2, Cpu_up 3]"
    by (intro new_calls_append) (simp add: cpu_all_ctrl_calls)
  then have b: "new_calls s (cpu_all_up k s) = [Cpu_up 1, Cpu_up 2, Cpu_up 3]"
    by (simp add: cpu_all_up_def)
  from a have c: "cac_bool s \<longrightarrow> new_calls s (lazyplug_cac_fn k s) = [Cpu_up 1, Cpu_up 2, Cpu_up 3]"
    by (simp add: lazyplug_cac_fn_def)
  have d: "new_calls (lazyplug_resume s) (run_cpu_all_up_work k (lazyplug_resume s))
            = [Cpu_up 1, Cpu_up 2, Cpu_up 3]"
      "new_calls (lazyplug_resume s) (run_lazyplug_cac k (lazyplug_resume s))
            = [Cpu_up 1, Cpu_up 2, Cpu_up 3]"
    if "lazyplug_active s \<noteq> 0"
    using that assms
    by (intro new_calls_append, simp add: event_defs cpu_all_ctrl_calls Let_def)+
  from assms have e: "cpu_count \<noteq> 1 \<longrightarrow>
      new_calls s (work_fn_not_suspended k cpu_count s) = [Cpu_up 1, Cpu_up 2, Cpu_up 3]"
    by (auto intro!: new_calls_append simp: work_fn_not_suspended_calls)
  from a have f: "\<forall>cpu \<ge> 4. Cpu_up cpu \<notin> set (new_calls s (cpu_all_ctrl k True s))"
    by auto
  from lazy_tick_ups [OF assms, of k Lavg Lcpu s']
  have g: "lazyplug_work_fn k Lavg Lcpu s = Some s' \<longrightarrow>
      (\<forall>cpu. Cpu_up cpu \<in> set (new_calls s s') \<longrightarrow> cpu \<in> {1, 2, 3})"
    by blast
  from a b c d e f g show ?thesis by blast
qed

theorem lazy_mode_scale_up_first_cluster_only_witness:
  "lazymode (lazyplug_enter_lazy octa_kernel True octa_boot)
   \<and> nr_cpu_ids octa_kernel = 8
   \<and> new_calls (lazyplug_enter_lazy octa_kernel True octa_boot)
        (cpu_all_ctrl octa_kernel True (lazyplug_enter_lazy octa_kernel True octa_boot))
      = [Cpu_up 1, Cpu_up 2, Cpu_up 3]
   \<and> Cpu_up 4 \<notin> set (new_calls (lazyplug_enter_lazy octa_kernel True octa_boot)
        (cpu_all_ctrl octa_kernel True (lazyplug_enter_lazy octa_kernel True octa_boot)))"
proof -
  have l: "lazymode (lazyplug_enter_lazy octa_kernel True octa_boot)"
    by (simp add: lazyplug_enter_lazy_def cpu_down_nocheck_def boot_defs)
  from lazy_mode_scale_up_first_cluster_only [OF l, of octa_kernel] l
  show ?thesis by (simp add: octa_kernel_def)
qed

section \<open>Suspend and resume, entering and leaving lazy mode\<close>

text \<open>Ticks and the flags they do not touch, along a run of ticks.\<close>

lemma run_ticks_fields:
  assumes "run k (map (case_prod Tick) ticks) s = Some ss"
  shows "lazyplug_active (last (s # ss)) = lazyplug_active s
     \<and> lazymode (last (s # ss)) = lazymode s
     \<and> nr_run_profile_sel (last (s # ss)) = nr_run_profile_sel s
     \<and> Lnr_run_profile_sel (last (s # ss)) = Lnr_run_profile_sel s"
  using assms
proof (induction ticks arbitrary: s ss)
  case Nil
  then show ?case by simp
next
  case (Cons x ticks)
  obtain Lavg Lcpu where x: "x = (Lavg, Lcpu)" by (cases x)
  from Cons.prems x obtain s1 ss1 where
    t: "lazyplug_work_fn k Lavg Lcpu s = Some s1"
    and r: "run k (map (case_prod Tick) ticks) s1 = Some ss1"
    and ss: "ss = s1 # ss1"
    by (auto split: option.splits)
  from Cons.IH [OF r] lazyplug_work_fn_fields [OF t] ss show ?case by simp
qed

text \<open>
  C5, as the code has it. With the driver active and not in lazy mode, suspend, any ticks
  while suspended (none, when resume follows at once; whatever tier they compute), then
  resume: \<open>persist_count\<close> is 26, the suspended flag is off, and both forced scale-up
  work items are queued; each of them, when the workqueue runs it, requests every cpu from
  1 to \<open>nr_cpu_ids - 1\<close> online. (Cpu 0 is never requested: the driver never takes it
  down.)
\<close>

theorem suspend_resume_round_trip:
  assumes "lazyplug_active s \<noteq> 0" and "\<not> lazymode s" and "1 \<le> nr_cpu_ids k"
    and "run k (map (case_prod Tick) ticks) (lazyplug_suspend s) = Some ss"
    and "s' = lazyplug_resume (last (lazyplug_suspend s # ss))"
  shows "persist_count s' = 26 \<and> \<not> suspended s'
     \<and> cpu_all_up_work_queued s' \<and> lazyplug_cac_queued s' \<and> cac_bool s'
     \<and> new_calls s' (run_cpu_all_up_work k s') = map Cpu_up [1 ..< nr_cpu_ids k]
     \<and> new_calls s' (run_lazyplug_cac k s') = map Cpu_up [1 ..< nr_cpu_ids k]"
proof -
  let ?t = "last (lazyplug_suspend s # ss)"
  from run_ticks_fields [OF assms(4)] assms(1,2)
  have a: "lazyplug_active ?t \<noteq> 0" and l: "\<not> lazymode ?t"
    by (simp_all add: lazyplug_suspend_def)
  from a assms(5) have f: "persist_count s' = 26" "\<not> suspended s'"
    "cpu_all_up_work_queued s'" "lazyplug_cac_queued s'" "cac_bool s'"
    by (simp_all add: lazyplug_resume_def BUSY_PERSISTENCE_value)
  from a l assms(5) have l': "\<not> lazymode s'" by (simp add: lazyplug_resume_def)
  from f l' have "new_calls s' (run_cpu_all_up_work k s') = map Cpu_up [1 ..< nr_cpu_ids k]"
    by (intro new_calls_append)
      (simp add: run_cpu_all_up_work_def cpu_all_up_def cpu_all_ctrl_calls)
  moreover
  from f l' have "new_calls s' (run_lazyplug_cac k s') = map Cpu_up [1 ..< nr_cpu_ids k]"
    by (intro new_calls_append)
      (simp add: run_lazyplug_cac_def lazyplug_cac_fn_def cpu_all_ctrl_calls)
  ultimately show ?thesis using f by simp
qed

theorem suspend_resume_round_trip_witness:
  "persist_count (lazyplug_resume (lazyplug_suspend octa_boot)) = 26
   \<and> \<not> suspended (lazyplug_resume (lazyplug_suspend octa_boot))
   \<and> new_calls (lazyplug_resume (lazyplug_suspend octa_boot))
        (run_cpu_all_up_work octa_kernel (lazyplug_resume (lazyplug_suspend octa_boot)))
      = map Cpu_up [1, 2, 3, 4, 5, 6, 7]"
proof -
  have a: "lazyplug_active octa_boot \<noteq> 0" "\<not> lazymode octa_boot" "1 \<le> nr_cpu_ids octa_kernel"
    by (simp_all add: boot_defs)
  have r: "run octa_kernel (map (case_prod Tick) []) (lazyplug_suspend octa_boot) = Some []"
    by simp
  have s': "lazyplug_resume (lazyplug_suspend octa_boot)
      = lazyplug_resume (last (lazyplug_suspend octa_boot # []))" by simp
  from suspend_resume_round_trip [OF a r s']
  show ?thesis by (simp add: octa_kernel_def upt_1_8)
qed

text \<open>
  C5 as stated fails for two starting states. In lazy mode, suspend then resume and the
  two queued work items request cpus 1, 2, 3 online and no other, on a kernel with 8
  cpus. With \<open>lazyplug_active = 0\<close> suspend and resume change neither \<open>persist_count\<close>
  nor the flags and queue no forced scale-up.
\<close>

theorem suspend_resume_lazy_or_inactive_counterexample:
  "nr_cpu_ids octa_kernel = 8
   \<and> new_calls (lazyplug_resume (lazyplug_suspend (lazyplug_enter_lazy octa_kernel True octa_boot)))
        (run_lazyplug_cac octa_kernel (run_cpu_all_up_work octa_kernel
          (lazyplug_resume (lazyplug_suspend (lazyplug_enter_lazy octa_kernel True octa_boot)))))
      = [Cpu_up 1, Cpu_up 2, Cpu_up 3, Cpu_up 1, Cpu_up 2, Cpu_up 3]
   \<and> persist_count (lazyplug_resume (lazyplug_suspend (octa_boot\<lparr>lazyplug_active := 0\<rparr>))) = 0
   \<and> \<not> cpu_all_up_work_queued
         (lazyplug_resume (lazyplug_suspend (octa_boot\<lparr>lazyplug_active := 0\<rparr>)))
   \<and> \<not> lazyplug_cac_queued
         (lazyplug_resume (lazyplug_suspend (octa_boot\<lparr>lazyplug_active := 0\<rparr>)))"
  by (simp add: event_defs tick_defs boot_defs new_calls_def)

text \<open>
  A step other than a call of \<open>lazyplug_enter_lazy\<close> leaves the lazy flag, the selector
  and the saved selector alone, and with a valid selector it does not fail.
\<close>

lemma step_keeps_lazy:
  assumes "\<forall>b. e \<noteq> Enter_lazy b" and "nr_run_profile_sel s < length nr_run_profiles"
  shows "\<exists>s'. step k e s = Some s' \<and> lazymode s' = lazymode s
     \<and> nr_run_profile_sel s' = nr_run_profile_sel s
     \<and> Lnr_run_profile_sel s' = Lnr_run_profile_sel s"
proof (cases e)
  case (Tick Lavg Lcpu)
  from assms(2) have "lazyplug_work_fn k Lavg Lcpu s \<noteq> None"
    by (simp add: lazyplug_work_fn_None)
  then obtain s1 where t: "lazyplug_work_fn k Lavg Lcpu s = Some s1" by auto
  with lazyplug_work_fn_fields [OF t] Tick show ?thesis by simp
next
  case (Fb_blank b)
  then show ?thesis by (cases b) (simp_all add: event_defs Let_def)
next
  case (Enter_lazy enter)
  with assms(1) show ?thesis by blast
next
  case Run_cac
  then show ?thesis by (simp add: event_defs cpu_all_ctrl_fields)
next
  case Run_cpu_all_up
  then show ?thesis by (simp add: event_defs cpu_all_ctrl_fields)
qed

lemma run_keeps_lazy:
  assumes "\<forall>e\<in>set es. \<forall>b. e \<noteq> Enter_lazy b"
    and "nr_run_profile_sel s < length nr_run_profiles"
  shows "\<exists>ss. run k es s = Some ss \<and> lazymode (last (s # ss)) = lazymode s
     \<and> nr_run_profile_sel (last (s # ss)) = nr_run_profile_sel s
     \<and> Lnr_run_profile_sel (last (s # ss)) = Lnr_run_profile_sel s"
  using assms
proof (induction es arbitrary: s)
  case Nil
  then show ?case by simp
next
  case (Cons e es)
  from Cons.prems have "\<forall>b. e \<noteq> Enter_lazy b" by simp
  from step_keeps_lazy [OF this Cons.prems(2), of k] obtain s1 where
    st: "step k e s = Some s1" and f: "lazymode s1 = lazymode s"
    "nr_run_profile_sel s1 = nr_run_profile_sel s"
    "Lnr_run_profile_sel s1 = Lnr_run_profile_sel s" by blast
  from Cons.prems f have "\<forall>e\<in>set es. \<forall>b. e \<noteq> Enter_lazy b"
    "nr_run_profile_sel s1 < length nr_run_profiles" by simp_all
  from Cons.IH [OF this] obtain ss1 where r: "run k es s1 = Some ss1"
    and g: "lazymode (last (s1 # ss1)) = lazymode s1"
    "nr_run_profile_sel (last (s1 # ss1)) = nr_run_profile_sel s1"
    "Lnr_run_profile_sel (last (s1 # ss1)) = Lnr_run_profile_sel s1" by blast
  from st r f g show ?case by simp
qed

lemma lazyplug_enter_lazy_True:
  assumes "\<not> lazymode s"
  shows "nr_run_profile_sel (lazyplug_enter_lazy k True s) = 6"
    and "Lnr_run_profile_sel (lazyplug_enter_lazy k True s) = nr_run_profile_sel s"
    and "lazymode (lazyplug_enter_lazy k True s)"
  using assms by (simp_all add: lazyplug_enter_lazy_def cpu_down_nocheck_def)

text \<open>
  C6. Starting outside lazy mode, \<open>lazyplug_enter_lazy(true)\<close> saves the selector and
  sets it to 6, the lazy profile. Whatever steps come before the matching
  \<open>lazyplug_enter_lazy(false)\<close> (ticks, which change \<open>nr_run_last\<close>, but also blank
  events and queued work, only no further call of \<open>lazyplug_enter_lazy\<close>), they all
  succeed, and leaving lazy mode then restores the selector to its value before the entry
  and clears the flag.
\<close>

theorem lazy_round_trip:
  assumes "\<not> lazymode s" and "\<forall>e\<in>set es. \<forall>b. e \<noteq> Enter_lazy b"
  shows "nr_run_profile_sel (lazyplug_enter_lazy k True s) = 6
     \<and> Lnr_run_profile_sel (lazyplug_enter_lazy k True s) = nr_run_profile_sel s
     \<and> lazymode (lazyplug_enter_lazy k True s)
     \<and> (\<exists>ss. run k es (lazyplug_enter_lazy k True s) = Some ss
          \<and> nr_run_profile_sel
               (lazyplug_enter_lazy k False (last (lazyplug_enter_lazy k True s # ss)))
              = nr_run_profile_sel s
          \<and> \<not> lazymode
               (lazyplug_enter_lazy k False (last (lazyplug_enter_lazy k True s # ss))))"
proof -
  let ?s1 = "lazyplug_enter_lazy k True s"
  note e = lazyplug_enter_lazy_True [OF assms(1), of k]
  from e(1) have "nr_run_profile_sel ?s1 < length nr_run_profiles"
    by (simp add: profile_defs)
  from run_keeps_lazy [OF assms(2) this, of k] obtain ss where r: "run k es ?s1 = Some ss"
    and g: "lazymode (last (?s1 # ss)) = lazymode ?s1"
    "Lnr_run_profile_sel (last (?s1 # ss)) = Lnr_run_profile_sel ?s1" by blast
  from g e have "nr_run_profile_sel (lazyplug_enter_lazy k False (last (?s1 # ss)))
      = nr_run_profile_sel s"
    and "\<not> lazymode (lazyplug_enter_lazy k False (last (?s1 # ss)))"
    by (simp_all add: lazyplug_enter_lazy_def)
  with r e show ?thesis by blast
qed

theorem lazy_round_trip_witness:
  "\<exists>ss. run octa_kernel [Tick 0xFFFFFFFF (\<lambda>cpu. 0), Tick 0 (\<lambda>cpu. 0)]
            (lazyplug_enter_lazy octa_kernel True (octa_boot\<lparr>nr_run_profile_sel := 2\<rparr>)) = Some ss
       \<and> map nr_run_last ss = [2, 1]
       \<and> map nr_run_profile_sel ss = [6, 6]
       \<and> nr_run_profile_sel (lazyplug_enter_lazy octa_kernel False
            (last (lazyplug_enter_lazy octa_kernel True (octa_boot\<lparr>nr_run_profile_sel := 2\<rparr>) # ss)))
          = 2"
proof -
  let ?s = "octa_boot\<lparr>nr_run_profile_sel := 2\<rparr>"
  let ?es = "[Tick 0xFFFFFFFF (\<lambda>cpu. 0), Tick 0 (\<lambda>cpu. 0)]"
  have a: "\<not> lazymode ?s" by (simp add: boot_defs)
  have b: "\<forall>e\<in>set ?es. \<forall>b. e \<noteq> Enter_lazy b" by simp
  from lazy_round_trip [OF a b, of octa_kernel] obtain ss where
    r: "run octa_kernel ?es (lazyplug_enter_lazy octa_kernel True ?s) = Some ss"
    and c: "nr_run_profile_sel (lazyplug_enter_lazy octa_kernel False
          (last (lazyplug_enter_lazy octa_kernel True ?s # ss))) = nr_run_profile_sel ?s"
    by blast
  have "map_option (map (\<lambda>s'. (nr_run_last s', nr_run_profile_sel s')))
      (run octa_kernel ?es (lazyplug_enter_lazy octa_kernel True ?s)) = Some [(2, 6), (1, 6)]"
    by (simp add: event_defs tick_defs eval_defs boot_defs upt_1_8)
  with r have "map (\<lambda>s'. (nr_run_last s', nr_run_profile_sel s')) ss = [(2, 6), (1, 6)]"
    by simp
  then have m: "map nr_run_last ss = [2, 1]" "map nr_run_profile_sel ss = [6, 6]"
    by auto
  show ?thesis using r m c by (intro exI [of _ ss]) simp
qed

section \<open>The per-cpu unplug threshold\<close>

text \<open>
  What \<open>cpu_nr_run_threshold << 1 / (num_online_cpus())\<close> is: the quotient
  \<open>1 / n\<close> is 1 for one online cpu and 0 for more, so the threshold is doubled with
  one cpu online and is the plain \<open>cpu_nr_run_threshold\<close> otherwise.
\<close>

lemma l_nr_threshold_value:
  assumes "1 \<le> card (online s)"
  shows "l_nr_threshold s =
     (if card (online s) = 1 then cpu_nr_run_threshold s * 2 else cpu_nr_run_threshold s)"
proof (cases "card (online s) = 1")
  case True
  then show ?thesis by (simp add: l_nr_threshold_def push_bit_eq_mult)
next
  case False
  with assms have "1 div card (online s) = 0" by simp
  with False show ?thesis by (simp add: l_nr_threshold_def)
qed

text \<open>
  C3 at a concrete state: four cpus online, \<open>cpu_nr_run_threshold = 1175\<close> (the default),
  cpu 3 with a load of 600 and the others with 5000, \<open>min_active_cpu = 0\<close>. The claim's
  threshold is \<open>1175 * 2 / 4 = 587\<close>, and 600 is not below it, so cpu 3 would stay online.
  The code compares with \<open>1175 << (1 / 4) = 1175\<close> and takes cpu 3 offline.
\<close>

theorem unplug_cpu_shift_by_quotient:
  "card (online (octa_boot\<lparr>online := {0, 1, 2, 3},
       cpu_nr_running := (\<lambda>cpu. if cpu = 3 then 600 else 5000)\<rparr>)) = 4
   \<and> (cpu_nr_run_threshold octa_boot * 2) div 4 = 587
   \<and> \<not> (600 :: u64) < 587
   \<and> l_nr_threshold (octa_boot\<lparr>online := {0, 1, 2, 3},
       cpu_nr_running := (\<lambda>cpu. if cpu = 3 then 600 else 5000)\<rparr>) = 1175
   \<and> calls (unplug_cpu octa_kernel 0 (octa_boot\<lparr>online := {0, 1, 2, 3},
       cpu_nr_running := (\<lambda>cpu. if cpu = 3 then 600 else 5000)\<rparr>)) = [Cpu_down 3]"
  by (simp add: unplug_cpu_def unplug_cpu_body_def l_nr_threshold_def cpu_down_def boot_defs
      upt_1_8)

end
